theory Spec2Isabelle
  imports Complex_Main
begin

chapter \<open>The program\<close>

section \<open>Spans\<close>

text \<open>
  An entity is the dictionary \<^verbatim>\<open>{label, text, start, end, score}\<close> that every stage
  of the pipeline passes on. The merger adds a key \<^verbatim>\<open>count\<close> to its working copy and
  pops it again, so the key is optional here. Python's \<^verbatim>\<open>int\<close> is \<open>int\<close>; a score is a
  Python float, read as a real number.
\<close>

record entity =
  e_label :: string
  e_text :: string
  e_start :: int
  e_end :: int
  e_score :: real
  e_count :: "int option"

section \<open>Python strings and slices\<close>

text \<open>
  A Python \<^verbatim>\<open>str\<close> is a list of characters. Characters here are the code points below
  256, and the predicates below are \<^verbatim>\<open>str.isspace\<close>, \<^verbatim>\<open>str.isdigit\<close>,
  \<^verbatim>\<open>str.isalpha\<close>, \<^verbatim>\<open>str.isupper\<close>, \<^verbatim>\<open>str.islower\<close> and \<^verbatim>\<open>str.isalnum\<close> of a
  one-character string on that range. The regular expression class \<^verbatim>\<open>\S\<close> is the
  complement of \<open>isspace\<close>.
\<close>

definition isspace :: "char \<Rightarrow> bool" where
  "isspace c = (let n = (of_char c :: nat) in
     (9 \<le> n \<and> n \<le> 13) \<or> (28 \<le> n \<and> n \<le> 32) \<or> n = 133 \<or> n = 160)"

definition isdigit :: "char \<Rightarrow> bool" where
  "isdigit c = (let n = (of_char c :: nat) in
     (48 \<le> n \<and> n \<le> 57) \<or> n = 178 \<or> n = 179 \<or> n = 185)"

definition isupper :: "char \<Rightarrow> bool" where
  "isupper c = (let n = (of_char c :: nat) in
     (65 \<le> n \<and> n \<le> 90) \<or> (192 \<le> n \<and> n \<le> 214) \<or> (216 \<le> n \<and> n \<le> 222))"

definition islower :: "char \<Rightarrow> bool" where
  "islower c = (let n = (of_char c :: nat) in
     (97 \<le> n \<and> n \<le> 122) \<or> n = 170 \<or> n = 181 \<or> n = 186
     \<or> (223 \<le> n \<and> n \<le> 246) \<or> (248 \<le> n \<and> n \<le> 255))"

definition isalpha :: "char \<Rightarrow> bool" where
  "isalpha c = (isupper c \<or> islower c)"

definition isalnum :: "char \<Rightarrow> bool" where
  "isalnum c = (let n = (of_char c :: nat) in
     isalpha c \<or> isdigit c \<or> (188 \<le> n \<and> n \<le> 190))"

text \<open>
  \<^verbatim>\<open>str.upper\<close> and \<^verbatim>\<open>str.lower\<close> are the library's, and Unicode case mapping
  leaves the characters at hand (\<^verbatim>\<open>'\xdf'.upper()\<close> is \<^verbatim>\<open>'SS'\<close>). The definitions
  below take them as parameters \<open>upper\<close> and \<open>lower\<close>, and what is proved holds for
  every function in their place. \<open>ascii_upper\<close> and \<open>ascii_lower\<close> are what the two
  methods do on a string of ASCII characters (other characters are left alone); the
  examples, whose labels are ASCII, use them.
\<close>

definition ascii_upper_char :: "char \<Rightarrow> char" where
  "ascii_upper_char c = (let n = (of_char c :: nat) in
     if 97 \<le> n \<and> n \<le> 122 then char_of (n - 32) else c)"

definition ascii_lower_char :: "char \<Rightarrow> char" where
  "ascii_lower_char c = (let n = (of_char c :: nat) in
     if 65 \<le> n \<and> n \<le> 90 then char_of (n + 32) else c)"

definition ascii_upper :: "string \<Rightarrow> string" where
  "ascii_upper s = map ascii_upper_char s"

definition ascii_lower :: "string \<Rightarrow> string" where
  "ascii_lower s = map ascii_lower_char s"

text \<open>\<^verbatim>\<open>str.strip()\<close>\<close>

definition strip :: "string \<Rightarrow> string" where
  "strip s = rev (dropWhile isspace (rev (dropWhile isspace s)))"

text \<open>
  A slice bound of Python: a negative bound counts from the end, and every bound is
  clamped to the length.
\<close>

definition slice_bound :: "nat \<Rightarrow> int \<Rightarrow> nat" where
  "slice_bound n i = (if i < 0 then nat (max 0 (i + int n)) else min (nat i) n)"

text \<open>\<^verbatim>\<open>s[a:b]\<close>, \<^verbatim>\<open>s[:a]\<close> and \<^verbatim>\<open>s[b:]\<close>\<close>

definition py_slice :: "'a list \<Rightarrow> int \<Rightarrow> int \<Rightarrow> 'a list" where
  "py_slice s a b =
     (let lo = slice_bound (length s) a; hi = slice_bound (length s) b
      in take (hi - lo) (drop lo s))"

definition py_prefix :: "'a list \<Rightarrow> int \<Rightarrow> 'a list" where
  "py_prefix s a = take (slice_bound (length s) a) s"

definition py_suffix :: "'a list \<Rightarrow> int \<Rightarrow> 'a list" where
  "py_suffix s b = drop (slice_bound (length s) b) s"

text \<open>\<^verbatim>\<open>str(n)\<close> of a natural number: its decimal digits.\<close>

fun str_nat :: "nat \<Rightarrow> string" where
  "str_nat n = (if n < 10 then [char_of (48 + n)]
                else str_nat (n div 10) @ [char_of (48 + n mod 10)])"

declare str_nat.simps [simp del]

text \<open>
  \<^verbatim>\<open>sorted(xs, key=f)\<close> is stable, as \<open>sort_key\<close> is; with \<^verbatim>\<open>reverse=True\<close> the keys
  descend and equal keys keep their order.
\<close>

definition sorted_reverse :: "('a \<Rightarrow> int) \<Rightarrow> 'a list \<Rightarrow> 'a list" where
  "sorted_reverse f xs = rev (sort_key f (rev xs))"

section \<open>Overlap resolution (utils/entity\_validator.py)\<close>

text \<open>\<^verbatim>\<open>EntityValidator._entities_overlap\<close>\<close>

definition entities_overlap :: "entity \<Rightarrow> entity \<Rightarrow> bool" where
  "entities_overlap entity1 entity2 =
     (\<not> (e_end entity1 \<le> e_start entity2 \<or> e_end entity2 \<le> e_start entity1))"

text \<open>
  \<^verbatim>\<open>EntityValidator._detect_overlaps\<close>: the two nested loops over \<^verbatim>\<open>enumerate\<close>,
  the inner one over \<^verbatim>\<open>entities[i+1:]\<close> counted from \<^verbatim>\<open>i+1\<close>.
\<close>

definition detect_overlaps :: "entity list \<Rightarrow> (nat \<times> nat) list" where
  "detect_overlaps entities =
     concat (map (\<lambda>i. map (\<lambda>j. (i, j))
                        (filter (\<lambda>j. entities_overlap (entities ! i) (entities ! j))
                                [i + 1 ..< length entities]))
                 [0 ..< length entities])"

text \<open>
  One round of the loop \<^verbatim>\<open>for idx1, idx2 in overlaps\<close> of
  \<^verbatim>\<open>EntityValidator.resolve_overlaps\<close>; \<open>to_remove\<close> is the set of marked indices.
\<close>

definition resolve_step :: "string \<Rightarrow> entity list \<Rightarrow> nat \<times> nat \<Rightarrow> nat set \<Rightarrow> nat set" where
  "resolve_step strategy entities p to_remove =
     (case p of (idx1, idx2) \<Rightarrow>
        if idx1 \<in> to_remove \<or> idx2 \<in> to_remove then to_remove
        else
          let entity1 = entities ! idx1; entity2 = entities ! idx2 in
          if strategy = ''highest_confidence'' then
            insert (if e_score entity2 > e_score entity1 then idx1 else idx2) to_remove
          else if strategy = ''longest'' then
            (let len1 = e_end entity1 - e_start entity1;
                 len2 = e_end entity2 - e_start entity2
             in insert (if len2 > len1 then idx1 else idx2) to_remove)
          else if strategy = ''first'' then insert idx2 to_remove
          else insert idx2 to_remove)"

definition resolve_marks :: "string \<Rightarrow> entity list \<Rightarrow> (nat \<times> nat) list \<Rightarrow> nat set" where
  "resolve_marks strategy entities overlaps = fold (resolve_step strategy entities) overlaps {}"

text \<open>\<^verbatim>\<open>EntityValidator.resolve_overlaps\<close>\<close>

definition resolve_overlaps :: "entity list \<Rightarrow> string \<Rightarrow> entity list" where
  "resolve_overlaps entities strategy =
     (if entities = [] then []
      else
        let overlaps = detect_overlaps entities in
        if overlaps = [] then entities
        else
          let to_remove = resolve_marks strategy entities overlaps in
          map snd (filter (\<lambda>p. fst p \<notin> to_remove) (enumerate 0 entities)))"

text \<open>
  The index that a round marks when neither index of the pair is marked yet, read off the
  branches of \<open>resolve_step\<close>.
\<close>

definition dropped_index :: "string \<Rightarrow> entity list \<Rightarrow> nat \<Rightarrow> nat \<Rightarrow> nat" where
  "dropped_index strategy entities i j =
     (if strategy = ''highest_confidence'' then
        (if e_score (entities ! j) > e_score (entities ! i) then i else j)
      else if strategy = ''longest'' then
        (if e_end (entities ! j) - e_start (entities ! j) > e_end (entities ! i) - e_start (entities ! i)
         then i else j)
      else j)"

text \<open>Example spans: two overlapping spans of equal score and a third apart from both.\<close>

definition ex_a :: entity where
  "ex_a = \<lparr>e_label = ''person'', e_text = ''John Smith'', e_start = 0, e_end = 10, e_score = 0.9, e_count = None\<rparr>"
definition ex_b :: entity where
  "ex_b = \<lparr>e_label = ''person'', e_text = ''Smith'', e_start = 5, e_end = 10, e_score = 0.9, e_count = None\<rparr>"
definition ex_c :: entity where
  "ex_c = \<lparr>e_label = ''location'', e_text = ''Paris'', e_start = 14, e_end = 19, e_score = 0.8, e_count = None\<rparr>"

definition tie_a :: entity where
  "tie_a = \<lparr>e_label = ''person'', e_text = ''John Smith'', e_start = 0, e_end = 10, e_score = 0.9, e_count = None\<rparr>"
definition tie_b :: entity where
  "tie_b = \<lparr>e_label = ''person'', e_text = ''Smith'', e_start = 5, e_end = 10, e_score = 0.9, e_count = None\<rparr>"

section \<open>Merging adjacent spans (utils/merger.py)\<close>

text \<open>
  The loop \<^verbatim>\<open>for next_entity in entities[1:]\<close> of \<^verbatim>\<open>EntityMerger.merge\<close>, with the
  list \<open>merged\<close> and the candidate \<open>current\<close> as its state. Reading
  \<^verbatim>\<open>current["count"]\<close> raises \<^verbatim>\<open>KeyError\<close> when the key is absent: the result is
  \<open>None\<close> then. \<^verbatim>\<open>current.pop("count", None)\<close> removes the key.
\<close>

fun merge_loop :: "int \<Rightarrow> string \<Rightarrow> entity list \<Rightarrow> entity \<Rightarrow> entity list \<Rightarrow> entity list option" where
  "merge_loop max_gap text merged current [] = Some (merged @ [current\<lparr>e_count := None\<rparr>])"
| "merge_loop max_gap text merged current (next_entity # rest) =
     (if e_label next_entity = e_label current \<and>
         (e_start next_entity = e_end current \<or> e_start next_entity \<le> e_end current + max_gap)
      then
        (case e_count current of
           None \<Rightarrow> None
         | Some count \<Rightarrow>
             merge_loop max_gap text merged
               (current\<lparr>e_text := strip (py_slice text (e_start current) (e_end next_entity)),
                        e_end := e_end next_entity,
                        e_score := (e_score current * real_of_int count + e_score next_entity)
                                     / real_of_int (count + 1),
                        e_count := Some (count + 1)\<rparr>)
               rest)
      else
        merge_loop max_gap text (merged @ [current\<lparr>e_count := None\<rparr>])
          (next_entity\<lparr>e_count := Some 1\<rparr>) rest)"

text \<open>
  \<^verbatim>\<open>EntityMerger.merge\<close>, for a merger built with \<open>max_gap\<close>. The counters of
  \<^verbatim>\<open>merge_stats\<close> do not enter the result and are left out.
\<close>

definition merge :: "int \<Rightarrow> entity list \<Rightarrow> string \<Rightarrow> entity list option" where
  "merge max_gap entities text =
     (if entities = [] then Some []
      else
        let sorted_entities = sort_key e_start entities in
        merge_loop max_gap text [] ((hd sorted_entities)\<lparr>e_count := Some 1\<rparr>) (tl sorted_entities))"

section \<open>Numbered redaction (anonymization/redactor.py)\<close>

text \<open>\<^verbatim>\<open>RedactionDetail\<close>\<close>

record redaction_detail =
  rd_label :: string
  rd_original :: string
  rd_placeholder :: string
  rd_start :: int
  rd_end :: int
  rd_score :: real
  rd_redaction_id :: string

text \<open>
  The fields of an \<^verbatim>\<open>EntityRedactor\<close>. A dictionary keeps its keys in insertion order
  and is an association list; \<^verbatim>\<open>used_ids_per_label\<close> is a \<^verbatim>\<open>defaultdict(set)\<close>, a
  function from labels to finite sets of id strings, each set given by a list of its
  elements. \<^verbatim>\<open>redaction_history\<close> is never written and is left out.
\<close>

record redactor =
  default_format :: string
  entity_id_map :: "((string \<times> string) \<times> string) list"
  used_ids_per_label :: "string \<Rightarrow> string list"

text \<open>\<^verbatim>\<open>EntityRedactor.__init__\<close>\<close>

definition new_redactor :: "string \<Rightarrow> redactor" where
  "new_redactor fmt = \<lparr>default_format = fmt, entity_id_map = [], used_ids_per_label = (\<lambda>_. [])\<rparr>"

text \<open>
  The loop \<^verbatim>\<open>while str(candidate_id) in used_ids: candidate_id += 1\<close> of
  \<^verbatim>\<open>_generate_unique_id\<close>. It ends because \<^verbatim>\<open>str\<close> is one-to-one and the set finite.
\<close>

lemma str_nat_nonempty: "str_nat n \<noteq> []"
  by (subst str_nat.simps) simp

lemma digit_char_inj:
  assumes "(a::nat) < 10" "(b::nat) < 10" "(char_of (48 + a) :: char) = char_of (48 + b)"
  shows "a = b"
proof -
  have "(of_char (char_of (48 + a) :: char) :: nat) = of_char (char_of (48 + b) :: char)"
    using assms(3) by simp
  with assms(1,2) show ?thesis by (simp add: of_char_of)
qed

lemma str_nat_inj: "str_nat n = str_nat m \<Longrightarrow> n = m"
proof (induction n arbitrary: m rule: str_nat.induct)
  case (1 n)
  show ?case
  proof (cases "n < 10")
    case small: True
    show ?thesis
    proof (cases "m < 10")
      case True
      with small "1.prems" show ?thesis
        by (subst (asm) str_nat.simps, subst (asm) (2) str_nat.simps) (auto dest: digit_char_inj)
    next
      case False
      have "length (str_nat m) \<ge> 2"
        using False str_nat_nonempty [of "m div 10"]
        by (subst str_nat.simps) (cases "str_nat (m div 10)", auto)
      moreover have "length (str_nat n) = 1"
        using small by (subst str_nat.simps) simp
      ultimately show ?thesis using "1.prems" by simp
    qed
  next
    case big: False
    show ?thesis
    proof (cases "m < 10")
      case True
      have "length (str_nat n) \<ge> 2"
        using big str_nat_nonempty [of "n div 10"]
        by (subst str_nat.simps) (cases "str_nat (n div 10)", auto)
      moreover have "length (str_nat m) = 1"
        using True by (subst str_nat.simps) simp
      ultimately show ?thesis using "1.prems" by simp
    next
      case False
      have en: "str_nat n = str_nat (n div 10) @ [char_of (48 + n mod 10)]"
        using big by (subst str_nat.simps) simp
      have em: "str_nat m = str_nat (m div 10) @ [char_of (48 + m mod 10)]"
        using False by (subst str_nat.simps) simp
      from "1.prems" en em
      have a: "str_nat (n div 10) = str_nat (m div 10)"
        and b: "(char_of (48 + n mod 10) :: char) = char_of (48 + m mod 10)" by simp_all
      from "1.IH" [OF big a] have "n div 10 = m div 10" .
      moreover from b have "n mod 10 = m mod 10" by (rule digit_char_inj [rotated 2]) simp_all
      ultimately show ?thesis by (metis div_mult_mod_eq)
    qed
  qed
qed

lemma finite_ids_from: "finite {n. c \<le> n \<and> str_nat n \<in> set used}"
proof -
  have "inj str_nat" by (rule injI) (rule str_nat_inj)
  then have "finite (str_nat -` set used)" by (simp add: finite_vimageI)
  moreover have "{n. c \<le> n \<and> str_nat n \<in> set used} \<subseteq> str_nat -` set used" by auto
  ultimately show ?thesis by (rule rev_finite_subset)
qed

function find_free_id :: "string list \<Rightarrow> nat \<Rightarrow> nat" where
  "find_free_id used_ids candidate_id =
     (if str_nat candidate_id \<in> set used_ids then find_free_id used_ids (candidate_id + 1)
      else candidate_id)"
  by pat_completeness auto
termination
proof (relation "measure (\<lambda>(used, c). card {n. c \<le> n \<and> str_nat n \<in> set used})")
  show "wf (measure (\<lambda>(used, c). card {n. c \<le> n \<and> str_nat n \<in> set used}))" by simp
next
  fix used_ids :: "string list" and candidate_id :: nat
  assume mem: "str_nat candidate_id \<in> set used_ids"
  have "{n. candidate_id + 1 \<le> n \<and> str_nat n \<in> set used_ids}
          \<subseteq> {n. candidate_id \<le> n \<and> str_nat n \<in> set used_ids}"
    by auto
  moreover have "candidate_id \<in> {n. candidate_id \<le> n \<and> str_nat n \<in> set used_ids}"
    using mem by simp
  moreover have "candidate_id \<notin> {n. candidate_id + 1 \<le> n \<and> str_nat n \<in> set used_ids}"
    by simp
  ultimately have "{n. candidate_id + 1 \<le> n \<and> str_nat n \<in> set used_ids}
          \<subset> {n. candidate_id \<le> n \<and> str_nat n \<in> set used_ids}"
    by blast
  then have "card {n. candidate_id + 1 \<le> n \<and> str_nat n \<in> set used_ids}
          < card {n. candidate_id \<le> n \<and> str_nat n \<in> set used_ids}"
    by (rule psubset_card_mono [OF finite_ids_from])
  then show "((used_ids, candidate_id + 1), (used_ids, candidate_id))
          \<in> measure (\<lambda>(used, c). card {n. c \<le> n \<and> str_nat n \<in> set used})"
    by simp
qed

declare find_free_id.simps [simp del]

text \<open>\<^verbatim>\<open>EntityRedactor._generate_unique_id\<close>: the id and the redactor with the id added.\<close>

definition generate_unique_id :: "redactor \<Rightarrow> string \<Rightarrow> string \<times> redactor" where
  "generate_unique_id self label =
     (let used_ids = used_ids_per_label self label;
          candidate_id = find_free_id used_ids 1
      in (str_nat candidate_id,
          self\<lparr>used_ids_per_label :=
                 (used_ids_per_label self)(label := List.insert (str_nat candidate_id) used_ids)\<rparr>))"

text \<open>Assignment \<^verbatim>\<open>d[k] = v\<close> to a dictionary: an old key keeps its place.\<close>

fun dict_set :: "('k \<times> 'v) list \<Rightarrow> 'k \<Rightarrow> 'v \<Rightarrow> ('k \<times> 'v) list" where
  "dict_set [] k v = [(k, v)]"
| "dict_set ((k', v') # d) k v = (if k' = k then (k, v) # d else (k', v') # dict_set d k v)"

text \<open>
  \<^verbatim>\<open>EntityRedactor._build_entity_id_map\<close>: the loop over \<open>entities\<close>, with the
  dictionary \<open>entity_to_id\<close> and the redactor as its state. Here and below \<open>upper\<close>
  stands for \<^verbatim>\<open>str.upper\<close>.
\<close>

fun build_entity_id_map_loop ::
  "(string \<Rightarrow> string) \<Rightarrow> redactor \<Rightarrow> ((string \<times> string) \<times> string) list \<Rightarrow> entity list
     \<Rightarrow> ((string \<times> string) \<times> string) list \<times> redactor" where
  "build_entity_id_map_loop upper self entity_to_id [] = (entity_to_id, self)"
| "build_entity_id_map_loop upper self entity_to_id (entity # rest) =
     (let label = e_label entity; text = e_text entity; entity_key = (label, text) in
      if map_of entity_to_id entity_key = None then
        (case generate_unique_id self (upper label) of
           (unique_id, self') \<Rightarrow>
             build_entity_id_map_loop upper self' (dict_set entity_to_id entity_key unique_id) rest)
      else build_entity_id_map_loop upper self entity_to_id rest)"

definition build_entity_id_map ::
  "(string \<Rightarrow> string) \<Rightarrow> redactor \<Rightarrow> entity list \<Rightarrow> ((string \<times> string) \<times> string) list \<times> redactor" where
  "build_entity_id_map upper self entities = build_entity_id_map_loop upper self [] entities"

text \<open>
  \<^verbatim>\<open>format_str.format(id=redaction_id, label=label, count=redaction_id)\<close> is the
  library's; it is a parameter here, taking the template, the id and the label, and
  \<open>None\<close> when it raises (a template naming another field, say).
\<close>

type_synonym formatter = "string \<Rightarrow> string \<Rightarrow> string \<Rightarrow> string option"

text \<open>
  An instance for the examples: what \<^verbatim>\<open>str.format\<close> makes of the default template
  \<^verbatim>\<open>#{id}_{label}_REDACTED\<close>. It is used with that template only and says nothing of
  any other.
\<close>

definition format_default :: formatter where
  "format_default format_str redaction_id label =
     (if format_str = ''#{id}_{label}_REDACTED''
      then Some (''#'' @ redaction_id @ ''_'' @ label @ ''_REDACTED'') else None)"

text \<open>
  One round of the loop \<^verbatim>\<open>for entity in sorted_entities\<close> of \<^verbatim>\<open>EntityRedactor.redact\<close>.
  The state is the redactor, \<open>redacted_text\<close>, \<open>redaction_details\<close> and
  \<open>re_identification_map\<close>. An exception in the body (a key missing from
  \<open>entity_to_id\<close>, a template that does not format) is caught and the entity skipped; an
  id generated before it stays used.
\<close>

definition redact_entity ::
  "(string \<Rightarrow> string) \<Rightarrow> formatter \<Rightarrow> string \<Rightarrow> bool \<Rightarrow> bool \<Rightarrow> ((string \<times> string) \<times> string) list \<Rightarrow> entity
     \<Rightarrow> redactor \<times> string \<times> redaction_detail list \<times> (string \<times> string) list
     \<Rightarrow> redactor \<times> string \<times> redaction_detail list \<times> (string \<times> string) list" where
  "redact_entity upper fmt format_str numbered consistent_ids entity_to_id entity state =
     (case state of (self, redacted_text, redaction_details, re_identification_map) \<Rightarrow>
        let label = upper (e_label entity);
            original_text = e_text entity;
            start_pos = e_start entity;
            end_pos = e_end entity;
            score = e_score entity;
            apply = (\<lambda>self' placeholder redaction_id.
              (self',
               py_prefix redacted_text start_pos @ placeholder @ py_suffix redacted_text end_pos,
               redaction_details @
                 [\<lparr>rd_label = label, rd_original = original_text, rd_placeholder = placeholder,
                   rd_start = start_pos, rd_end = end_pos, rd_score = score,
                   rd_redaction_id = redaction_id\<rparr>],
               dict_set re_identification_map placeholder original_text))
        in
        if numbered then
          (case (if consistent_ids
                 then (case map_of entity_to_id (e_label entity, original_text) of
                         None \<Rightarrow> None
                       | Some redaction_id \<Rightarrow> Some (redaction_id, self))
                 else Some (generate_unique_id self label)) of
             None \<Rightarrow> state
           | Some (redaction_id, self') \<Rightarrow>
               (case fmt format_str redaction_id label of
                  None \<Rightarrow> (self', redacted_text, redaction_details, re_identification_map)
                | Some placeholder \<Rightarrow> apply self' placeholder redaction_id))
        else apply self (label @ ''_REDACTED'') (label @ ''_STATIC''))"

text \<open>
  The result of \<^verbatim>\<open>redact\<close>. Of \<^verbatim>\<open>redaction_info\<close> the two counters are kept; its other
  entries repeat arguments of the call.
\<close>

record redaction_result =
  rr_anonymized_text :: string
  rr_replacements :: "redaction_detail list"
  rr_entities_processed :: nat
  rr_redactions_applied :: nat
  rr_re_identification_map :: "(string \<times> string) list"

text \<open>
  \<^verbatim>\<open>EntityRedactor.redact\<close>; it returns the result and the redactor as the call leaves
  it. \<open>preserve_case\<close> is an argument that the body never reads.
\<close>

definition redact ::
  "(string \<Rightarrow> string) \<Rightarrow> formatter \<Rightarrow> redactor \<Rightarrow> string \<Rightarrow> entity list \<Rightarrow> bool \<Rightarrow> string option \<Rightarrow> bool \<Rightarrow> bool
     \<Rightarrow> redaction_result \<times> redactor" where
  "redact upper fmt self text entities numbered placeholder_format preserve_case consistent_ids =
     (if entities = [] then
        (\<lparr>rr_anonymized_text = text, rr_replacements = [], rr_entities_processed = 0,
          rr_redactions_applied = 0, rr_re_identification_map = []\<rparr>, self)
      else
        let format_str = (case placeholder_format of
                            None \<Rightarrow> default_format self
                          | Some f \<Rightarrow> if f = [] then default_format self else f);
            sorted_entities = sorted_reverse e_start entities
        in
        case (if numbered \<and> consistent_ids then build_entity_id_map upper self entities else ([], self)) of
          (entity_to_id, self1) \<Rightarrow>
            (case fold (redact_entity upper fmt format_str numbered consistent_ids entity_to_id)
                       sorted_entities (self1, text, [], []) of
               (self2, redacted_text, redaction_details, re_identification_map) \<Rightarrow>
                 (\<lparr>rr_anonymized_text = redacted_text,
                   rr_replacements = sort_key rd_start redaction_details,
                   rr_entities_processed = length entities,
                   rr_redactions_applied = length redaction_details,
                   rr_re_identification_map = re_identification_map\<rparr>, self2)))"

datatype error = ValueError

text \<open>
  \<^verbatim>\<open>EntityRedactor.batch_redact\<close>. The order in which Python walks the set
  \<open>all_entity_keys\<close> is not fixed by the language: \<open>iter_order\<close> stands for it, applied
  to the keys in some order without repetition. The keyword arguments are those of
  \<open>redact\<close>.
\<close>

definition batch_redact ::
  "(string \<Rightarrow> string) \<Rightarrow> formatter \<Rightarrow> ((string \<times> string) list \<Rightarrow> (string \<times> string) list) \<Rightarrow> redactor
     \<Rightarrow> string list \<Rightarrow> entity list list \<Rightarrow> bool \<Rightarrow> string option \<Rightarrow> bool \<Rightarrow> bool
     \<Rightarrow> error + (redaction_result list \<times> redactor)" where
  "batch_redact upper fmt iter_order self texts all_entities numbered placeholder_format preserve_case
       consistent_ids =
     (if length texts \<noteq> length all_entities then Inl ValueError
      else
        let all_entity_keys =
              iter_order (remdups (concat (map (map (\<lambda>entity. (e_label entity, e_text entity)))
                                               all_entities)))
        in
        case fold (\<lambda>(label, text) (global_entity_map, s).
                     case generate_unique_id s (upper label) of
                       (unique_id, s') \<Rightarrow> (dict_set global_entity_map (label, text) unique_id, s'))
                  all_entity_keys ([], self) of
          (global_entity_map, self1) \<Rightarrow>
            Inr (fold (\<lambda>(text, entities) (results, s).
                         let old_map = entity_id_map s;
                             s1 = s\<lparr>entity_id_map := global_entity_map\<rparr>
                         in case redact upper fmt s1 text entities numbered placeholder_format
                                        preserve_case consistent_ids of
                              (result, s2) \<Rightarrow> (results @ [result], s2\<lparr>entity_id_map := old_map\<rparr>))
                      (zip texts all_entities) ([], self1)))"

text \<open>Example input: the same person in each of two texts.\<close>

definition john :: entity where
  "john = \<lparr>e_label = ''person'', e_text = ''John'', e_start = 0, e_end = 4, e_score = 0.9, e_count = None\<rparr>"

subsection \<open>Notions for the id assignment\<close>

text \<open>
  The ids that an id map \<open>al\<close> gives to pairs whose upper-cased label is \<open>L\<close>, and
  the ids given before position \<open>j\<close> to pairs with the upper-cased label of the pair at
  \<open>j\<close>. The redactor files its used ids under the upper-cased label.
\<close>

definition ids_of_label :: "(string \<Rightarrow> string) \<Rightarrow> string \<Rightarrow> ((string \<times> string) \<times> string) list \<Rightarrow> string set" where
  "ids_of_label upper L al = set (map snd (filter (\<lambda>p. upper (fst (fst p)) = L) al))"

definition ids_before :: "(string \<Rightarrow> string) \<Rightarrow> ((string \<times> string) \<times> string) list \<Rightarrow> nat \<Rightarrow> string set" where
  "ids_before upper al j = ids_of_label upper (upper (fst (fst (al ! j)))) (take j al)"

text \<open>\<open>i\<close> is the decimal form of the smallest positive integer whose decimal form is not in \<open>U\<close>.\<close>

definition smallest_unused :: "string set \<Rightarrow> string \<Rightarrow> bool" where
  "smallest_unused U i = (\<exists>n. i = str_nat n \<and> 0 < n \<and> str_nat n \<notin> U
                              \<and> (\<forall>m. 0 < m \<and> m < n \<longrightarrow> str_nat m \<in> U))"

text \<open>The invariant of the loop of \<open>build_entity_id_map\<close>.\<close>

definition id_inv :: "(string \<Rightarrow> string) \<Rightarrow> redactor \<Rightarrow> ((string \<times> string) \<times> string) list \<Rightarrow> bool" where
  "id_inv upper self al = (distinct (map fst al)
     \<and> (\<forall>L. set (used_ids_per_label self L) = ids_of_label upper L al)
     \<and> (\<forall>j < length al. smallest_unused (ids_before upper al j) (snd (al ! j))))"

text \<open>A detail \<open>d\<close> is the redaction of entity \<open>e\<close> under the id map \<open>al\<close>.\<close>

definition redaction_of :: "(string \<Rightarrow> string) \<Rightarrow> ((string \<times> string) \<times> string) list \<Rightarrow> entity \<Rightarrow> redaction_detail \<Rightarrow> bool" where
  "redaction_of upper al e d =
     (rd_label d = upper (e_label e) \<and> rd_original d = e_text e \<and> rd_start d = e_start e
      \<and> rd_end d = e_end e \<and> rd_score d = e_score e
      \<and> map_of al (e_label e, e_text e) = Some (rd_redaction_id d))"

text \<open>Example input: one person twice and another person between.\<close>

definition doc_text :: string where
  "doc_text = ''John met Mary and John''"

definition doc_entities :: "entity list" where
  "doc_entities =
     [\<lparr>e_label = ''person'', e_text = ''John'', e_start = 0, e_end = 4, e_score = 0.9, e_count = None\<rparr>,
      \<lparr>e_label = ''person'', e_text = ''Mary'', e_start = 9, e_end = 13, e_score = 0.8, e_count = None\<rparr>,
      \<lparr>e_label = ''person'', e_text = ''John'', e_start = 18, e_end = 22, e_score = 0.7, e_count = None\<rparr>]"

text \<open>
  The detail that a round of the loop of \<open>redact\<close> records for entity \<open>e\<close> when
  \<open>numbered\<close> and \<open>consistent_ids\<close> are on, if it records one.
\<close>

definition redaction_detail_of ::
  "(string \<Rightarrow> string) \<Rightarrow> formatter \<Rightarrow> string \<Rightarrow> ((string \<times> string) \<times> string) list \<Rightarrow> entity
     \<Rightarrow> redaction_detail option" where
  "redaction_detail_of upper fmt format_str al e =
     (case map_of al (e_label e, e_text e) of
        None \<Rightarrow> None
      | Some i \<Rightarrow>
          (case fmt format_str i (upper (e_label e)) of
             None \<Rightarrow> None
           | Some p \<Rightarrow>
               Some \<lparr>rd_label = upper (e_label e), rd_original = e_text e, rd_placeholder = p,
                     rd_start = e_start e, rd_end = e_end e, rd_score = e_score e,
                     rd_redaction_id = i\<rparr>))"

text \<open>Example input: labels that differ in case only.\<close>

definition case_entities :: "entity list" where
  "case_entities =
     [\<lparr>e_label = ''person'', e_text = ''John'', e_start = 0, e_end = 4, e_score = 0.9, e_count = None\<rparr>,
      \<lparr>e_label = ''Person'', e_text = ''Mary'', e_start = 9, e_end = 13, e_score = 0.8, e_count = None\<rparr>,
      \<lparr>e_label = ''Person'', e_text = ''Ann'', e_start = 18, e_end = 21, e_score = 0.7, e_count = None\<rparr>]"

definition case_text :: string where
  "case_text = ''John met Mary and Ann''"

section \<open>Chunking (extraction/chunker.py)\<close>

text \<open>
  \<^verbatim>\<open>[m.span() for m in re.finditer(r"\S+", text)]\<close>: the maximal runs of characters
  that are not whitespace, from left to right, each as its start and end index. \<open>pos\<close>
  is the index in the whole text of the first character of \<open>s\<close>, the part not yet
  scanned.
\<close>

function word_spans_from :: "nat \<Rightarrow> string \<Rightarrow> (nat \<times> nat) list" where
  "word_spans_from pos s =
     (let w = dropWhile isspace s in
      if w = [] then []
      else
        let start = pos + length (takeWhile isspace s);
            n = length (takeWhile (\<lambda>c. \<not> isspace c) w)
        in (start, start + n) # word_spans_from (start + n) (drop n w))"
  by pat_completeness auto
termination
proof (relation "measure (\<lambda>(pos, s). length s)")
  show "wf (measure (\<lambda>(pos, s). length s))" by simp
next
  fix pos :: nat and s w :: string and start n :: nat
  assume w: "w = dropWhile isspace s" and ne: "w \<noteq> []"
    and n: "n = length (takeWhile (\<lambda>c. \<not> isspace c) w)"
  from ne obtain c cs where c: "w = c # cs" by (cases w) auto
  have "\<not> isspace (hd w)"
    using ne hd_dropWhile [of isspace s] unfolding w by simp
  then have "\<not> isspace c" unfolding c by simp
  with c n have "0 < n" by simp
  moreover have "length w \<le> length s" unfolding w by (rule length_dropWhile_le)
  ultimately have "length (drop n w) < length s" using ne by (cases w) auto
  then show "((start + n, drop n w), (pos, s)) \<in> measure (\<lambda>(pos, s). length s)" by simp
qed

declare word_spans_from.simps [simp del]

definition word_spans :: "string \<Rightarrow> (nat \<times> nat) list" where
  "word_spans text = word_spans_from 0 text"

text \<open>
  The loop \<^verbatim>\<open>for i in range(0, len(word_spans), chunk_size)\<close> takes
  \<^verbatim>\<open>word_spans[i : i + chunk_size]\<close> in turn: the groups of \<open>chunk_size\<close> spans, the
  last one shorter.
\<close>

function group_spans :: "nat \<Rightarrow> 'a list \<Rightarrow> 'a list list" where
  "group_spans chunk_size spans =
     (if spans = [] \<or> chunk_size = 0 then []
      else take chunk_size spans # group_spans chunk_size (drop chunk_size spans))"
  by pat_completeness auto
termination
  by (relation "measure (\<lambda>(chunk_size, spans). length spans)") auto

declare group_spans.simps [simp del]

text \<open>\<^verbatim>\<open>chunk_text\<close>; an offset is a Python \<^verbatim>\<open>int\<close>.\<close>

definition chunk_text :: "string \<Rightarrow> int \<Rightarrow> (string \<times> int) list" where
  "chunk_text text chunk_size =
     (if text = [] \<or> strip text = [] then []
      else
        let chunk_size = (if chunk_size \<le> 0 then 600 else chunk_size);
            spans = word_spans text
        in if spans = [] then []
           else map (\<lambda>chunk_spans.
                       let start_char = fst (hd chunk_spans);
                           end_char = snd (last chunk_spans)
                       in (py_slice text (int start_char) (int end_char), int start_char))
                    (group_spans (nat chunk_size) spans))"

text \<open>\<^verbatim>\<open>validate_chunks\<close>: the loop returns \<^verbatim>\<open>False\<close> at the first chunk that fails.\<close>

definition validate_chunks :: "(string \<times> int) list \<Rightarrow> string \<Rightarrow> bool" where
  "validate_chunks chunks original_text =
     (if chunks = [] \<or> original_text = [] then False
      else list_all (\<lambda>(chunk_str, offset).
                       \<not> (offset < 0 \<or> offset \<ge> int (length original_text))
                       \<and> \<not> (offset + int (length chunk_str) > int (length original_text))
                       \<and> py_slice original_text offset (offset + int (length chunk_str)) = chunk_str)
                    chunks)"

text \<open>
  A word of the text: a maximal run of characters that are not whitespace, from index
  \<open>s\<close> up to but not including index \<open>e\<close>.
\<close>

definition is_word :: "string \<Rightarrow> nat \<Rightarrow> nat \<Rightarrow> bool" where
  "is_word text s e =
     (s < e \<and> e \<le> length text
      \<and> (\<forall>i. s \<le> i \<and> i < e \<longrightarrow> \<not> isspace (text ! i))
      \<and> (s = 0 \<or> isspace (text ! (s - 1)))
      \<and> (e = length text \<or> isspace (text ! e)))"

text \<open>The chunk that \<open>chunk_text\<close> makes of a group of spans.\<close>

definition chunk_of :: "string \<Rightarrow> (nat \<times> nat) list \<Rightarrow> string \<times> int" where
  "chunk_of text chunk_spans =
     (py_slice text (int (fst (hd chunk_spans))) (int (snd (last chunk_spans))),
      int (fst (hd chunk_spans)))"

text \<open>The chunk size in force: 600 replaces a size that is not positive.\<close>

definition eff_size :: "int \<Rightarrow> nat" where
  "eff_size chunk_size = nat (if chunk_size \<le> 0 then 600 else chunk_size)"

text \<open>Example input.\<close>

definition sample_text :: string where
  "sample_text = ''  ab  cde f ''"

section \<open>Parallel dispatch (extraction/parallel\_processor.py)\<close>

text \<open>
  \<^verbatim>\<open>extractor.predict(chunk_text, labels=categories)\<close> is the labeler, a collaborator
  outside this code: a parameter here, with \<open>None\<close> when it raises.
\<close>

type_synonym labeler = "string \<Rightarrow> string list option \<Rightarrow> entity list option"

text \<open>
  \<^verbatim>\<open>extract_entities_for_chunk\<close>. Every entity has its \<open>start\<close> and \<open>end\<close>, so the
  inner handler for a missing key never runs.
\<close>

definition extract_entities_for_chunk ::
  "string \<Rightarrow> int \<Rightarrow> labeler \<Rightarrow> string list option \<Rightarrow> entity list" where
  "extract_entities_for_chunk chunk_str offset predict categories =
     (case predict chunk_str categories of
        None \<Rightarrow> []
      | Some raw_entities \<Rightarrow>
          map (\<lambda>ent. ent\<lparr>e_start := e_start ent + offset, e_end := e_end ent + offset\<rparr>)
              raw_entities)"

text \<open>
  \<^verbatim>\<open>extract_entities_in_parallel\<close>. One task per chunk is submitted, and
  \<^verbatim>\<open>as_completed\<close> hands the tasks back in the order in which they finish:
  \<open>completion_order\<close> lists the indices of the tasks in that order. A task returns a list
  and never raises. \<^verbatim>\<open>ThreadPoolExecutor\<close> raises on a worker count that is not
  positive, and the outer handler returns the empty list then.
\<close>

definition extract_entities_in_parallel ::
  "nat list \<Rightarrow> string \<Rightarrow> labeler \<Rightarrow> int \<Rightarrow> int \<Rightarrow> string list option \<Rightarrow> entity list" where
  "extract_entities_in_parallel completion_order full_text predict chunk_size max_workers categories =
     (if full_text = [] \<or> strip full_text = [] then []
      else
        let chunks = chunk_text full_text chunk_size in
        if chunks = [] then []
        else if max_workers \<le> 0 then []
        else
          let futures = map (\<lambda>(chunk_str, offset).
                               extract_entities_for_chunk chunk_str offset predict categories)
                            chunks;
              all_entities = concat (map (\<lambda>i. futures ! i) completion_order)
          in sort_key e_start all_entities)"

text \<open>
  Example labeler: it reports the first two characters of a chunk that has two.
\<close>

definition first_two :: labeler where
  "first_two chunk_str categories =
     Some (if 2 \<le> length chunk_str
           then [\<lparr>e_label = ''word'', e_text = take 2 chunk_str, e_start = 0, e_end = 2,
                   e_score = 1, e_count = None\<rparr>]
           else [])"

section \<open>The default replacement strategy (anonymization/strategies/default\_strategy.py)\<close>

text \<open>
  The module \<^verbatim>\<open>random\<close> is a source of draws. Its state is the list of the raw draws
  still to come, any list at all; a draw below \<open>n\<close> takes the next one modulo \<open>n\<close>, and
  0 when the list is used up.
\<close>

type_synonym rng = "nat list"

definition draw :: "nat \<Rightarrow> rng \<Rightarrow> nat \<times> rng" where
  "draw n r = (case r of [] \<Rightarrow> (0, []) | x # xs \<Rightarrow> (x mod n, xs))"

text \<open>\<^verbatim>\<open>random.choice(seq)\<close>, \<^verbatim>\<open>random.choices(seq, k=k)\<close> and \<^verbatim>\<open>random.randint(a, b)\<close>\<close>

definition choice :: "'a list \<Rightarrow> rng \<Rightarrow> 'a \<times> rng" where
  "choice seq r = (case draw (length seq) r of (i, r') \<Rightarrow> (seq ! i, r'))"

fun choices :: "'a list \<Rightarrow> nat \<Rightarrow> rng \<Rightarrow> 'a list \<times> rng" where
  "choices seq 0 r = ([], r)"
| "choices seq (Suc k) r =
     (case choice seq r of (x, r1) \<Rightarrow>
        case choices seq k r1 of (xs, r2) \<Rightarrow> (x # xs, r2))"

definition randint :: "nat \<Rightarrow> nat \<Rightarrow> rng \<Rightarrow> nat \<times> rng" where
  "randint a b r = (case draw (b - a + 1) r of (i, r') \<Rightarrow> (a + i, r'))"

text \<open>\<^verbatim>\<open>string.digits\<close>, \<^verbatim>\<open>string.ascii_uppercase\<close>, \<^verbatim>\<open>string.ascii_lowercase\<close>\<close>

definition digits :: string where
  "digits = ''0123456789''"

definition ascii_uppercase :: string where
  "ascii_uppercase = ''ABCDEFGHIJKLMNOPQRSTUVWXYZ''"

definition ascii_lowercase :: string where
  "ascii_lowercase = ''abcdefghijklmnopqrstuvwxyz''"

text \<open>
  \<^verbatim>\<open>str.isdigit()\<close> and \<^verbatim>\<open>str.isalpha()\<close> of a whole string: every character is one,
  and there is at least one character.
\<close>

definition str_isdigit :: "string \<Rightarrow> bool" where
  "str_isdigit s = (s \<noteq> [] \<and> list_all isdigit s)"

definition str_isalpha :: "string \<Rightarrow> bool" where
  "str_isalpha s = (s \<noteq> [] \<and> list_all isalpha s)"

text \<open>The loop of the branch \<^verbatim>\<open>original_text.isalpha()\<close>.\<close>

fun replace_letters :: "string \<Rightarrow> rng \<Rightarrow> string \<times> rng" where
  "replace_letters [] r = ([], r)"
| "replace_letters (char # rest) r =
     (case (if isupper char then choice ascii_uppercase r
            else if islower char then choice ascii_lowercase r
            else (char, r)) of
        (x, r1) \<Rightarrow> case replace_letters rest r1 of (xs, r2) \<Rightarrow> (x # xs, r2))"

text \<open>The loop of the branch for mixed text.\<close>

fun replace_alnum :: "string \<Rightarrow> rng \<Rightarrow> string \<times> rng" where
  "replace_alnum [] r = ([], r)"
| "replace_alnum (char # rest) r =
     (case (if isdigit char then choice digits r
            else if isalpha char then
              (if isupper char then choice ascii_uppercase r else choice ascii_lowercase r)
            else (char, r)) of
        (x, r1) \<Rightarrow> case replace_alnum rest r1 of (xs, r2) \<Rightarrow> (x # xs, r2))"

text \<open>\<^verbatim>\<open>DefaultReplacementStrategy._generate_generic_replacement\<close>\<close>

definition generate_generic_replacement ::
  "(string \<Rightarrow> string) \<Rightarrow> string \<Rightarrow> string \<Rightarrow> rng \<Rightarrow> string \<times> rng" where
  "generate_generic_replacement upper original_text label r =
     (let text_len = length original_text in
      if str_isdigit original_text then choices digits text_len r
      else if str_isalpha original_text then replace_letters original_text r
      else if list_ex isalnum original_text then replace_alnum original_text r
      else (''['' @ upper label @ ''_REDACTED]'', r))"

text \<open>The generators of \<^verbatim>\<open>replacement_patterns\<close>.\<close>

definition generate_email :: "rng \<Rightarrow> string \<times> rng" where
  "generate_email r =
     (let domains = [''example.com'', ''test.org'', ''sample.net'', ''demo.co''] in
      case randint 5 10 r of (k, r1) \<Rightarrow>
      case choices ascii_lowercase k r1 of (username, r2) \<Rightarrow>
      case choice domains r2 of (domain, r3) \<Rightarrow>
        (username @ ''@'' @ domain, r3))"

definition generate_phone :: "rng \<Rightarrow> string \<times> rng" where
  "generate_phone r =
     (case randint 200 999 r of (area_code, r1) \<Rightarrow>
      case randint 200 999 r1 of (exchange, r2) \<Rightarrow>
      case randint 1000 9999 r2 of (number, r3) \<Rightarrow>
        (''('' @ str_nat area_code @ '') '' @ str_nat exchange @ ''-'' @ str_nat number, r3))"

definition generate_ssn :: "rng \<Rightarrow> string \<times> rng" where
  "generate_ssn r =
     (case randint 100 999 r of (a, r1) \<Rightarrow>
      case randint 10 99 r1 of (b, r2) \<Rightarrow>
      case randint 1000 9999 r2 of (c, r3) \<Rightarrow>
        (str_nat a @ ''-'' @ str_nat b @ ''-'' @ str_nat c, r3))"

definition generate_id :: "rng \<Rightarrow> string \<times> rng" where
  "generate_id r =
     (case choices ascii_uppercase 2 r of (letters, r1) \<Rightarrow>
      case choices digits 6 r1 of (numbers, r2) \<Rightarrow>
        (letters @ numbers, r2))"

definition generate_number :: "rng \<Rightarrow> string \<times> rng" where
  "generate_number r = (case randint 100000 999999 r of (n, r1) \<Rightarrow> (str_nat n, r1))"

definition generate_code :: "rng \<Rightarrow> string \<times> rng" where
  "generate_code r = choices (ascii_uppercase @ digits) 8 r"

definition generate_username :: "rng \<Rightarrow> string \<times> rng" where
  "generate_username r =
     (let prefixes = [''user'', ''demo'', ''test'', ''sample''] in
      case choice prefixes r of (prefix, r1) \<Rightarrow>
      case randint 100 9999 r1 of (suffix, r2) \<Rightarrow>
        (prefix @ str_nat suffix, r2))"

text \<open>\<^verbatim>\<open>self.replacement_patterns\<close>: a label and its generator.\<close>

definition replacement_patterns :: "(string \<times> (rng \<Rightarrow> string \<times> rng)) list" where
  "replacement_patterns =
     [(''email'', generate_email), (''phone'', generate_phone), (''ssn'', generate_ssn),
      (''id'', generate_id), (''number'', generate_number), (''code'', generate_code),
      (''username'', generate_username)]"

text \<open>
  \<^verbatim>\<open>DefaultReplacementStrategy.get_replacement\<close>. Nothing in the body raises, so the
  handler that would return the placeholder never runs.
\<close>

definition default_get_replacement ::
  "(string \<Rightarrow> string) \<Rightarrow> (string \<Rightarrow> string) \<Rightarrow> entity \<Rightarrow> rng \<Rightarrow> string \<times> rng" where
  "default_get_replacement lower upper entity r =
     (let label = lower (e_label entity); original_text = e_text entity in
      case map_of replacement_patterns label of
        Some generator \<Rightarrow> generator r
      | None \<Rightarrow> generate_generic_replacement upper original_text label r)"




section \<open>Replacement (anonymization/replacer.py)\<close>

text \<open>\<^verbatim>\<open>ReplacementDetail\<close>\<close>

record replacement_detail =
  rp_label :: string
  rp_original :: string
  rp_replacement :: string
  rp_start :: int
  rp_end :: int
  rp_score :: real
  rp_strategy_used :: string

text \<open>
  A replacement strategy: \<^verbatim>\<open>can_handle(label)\<close> and \<^verbatim>\<open>get_replacement(entity)\<close>. The
  second draws on the random source and returns a string, or \<open>None\<close> when the method
  returns \<^verbatim>\<open>None\<close> or raises; the replacer treats the two alike.
\<close>

record strategy =
  s_can_handle :: "string \<Rightarrow> bool"
  s_get_replacement :: "entity \<Rightarrow> rng \<Rightarrow> string option \<times> rng"

text \<open>
  The fields of an \<^verbatim>\<open>EntityReplacer\<close>. The strategies built on the synthetic-data
  library, on the country list and on the date patterns are parameters: any strategies
  may stand in their places, and \<open>faker_strategy\<close> is \<open>None\<close> when the library is
  missing. The consistency cache is a dictionary from \<open>(label, text)\<close> to
  \<open>(replacement, strategy)\<close>.
\<close>

record replacer =
  ensure_consistency :: bool
  replacement_cache :: "((string \<times> string) \<times> (string \<times> string)) list"
  faker_strategy :: "strategy option"
  country_strategy :: strategy
  date_strategy :: strategy

text \<open>The entry \<^verbatim>\<open>'default'\<close> of \<^verbatim>\<open>self.strategies\<close>.\<close>

definition default_strategy :: "(string \<Rightarrow> string) \<Rightarrow> (string \<Rightarrow> string) \<Rightarrow> strategy" where
  "default_strategy lower upper =
     \<lparr>s_can_handle = (\<lambda>label. True),
      s_get_replacement = (\<lambda>entity r.
        case default_get_replacement lower upper entity r of (s, r') \<Rightarrow> (Some s, r'))\<rparr>"

text \<open>\<^verbatim>\<open>self.strategies.get(strategy_name)\<close>\<close>

definition strategies_get ::
  "(string \<Rightarrow> string) \<Rightarrow> (string \<Rightarrow> string) \<Rightarrow> replacer \<Rightarrow> string \<Rightarrow> strategy option" where
  "strategies_get lower upper self strategy_name =
     (if strategy_name = ''faker'' then faker_strategy self
      else if strategy_name = ''country'' then Some (country_strategy self)
      else if strategy_name = ''date'' then Some (date_strategy self)
      else if strategy_name = ''default'' then Some (default_strategy lower upper)
      else None)"

text \<open>\<^verbatim>\<open>self.strategy_mapping\<close>\<close>

definition strategy_mapping :: "(string \<times> string list) list" where
  "strategy_mapping =
     [(''person'', [''faker'', ''default'']),
      (''location'', [''country'', ''faker'', ''default'']),
      (''date'', [''date'', ''faker'', ''default'']),
      (''organization'', [''faker'', ''default'']),
      (''company'', [''faker'', ''default'']),
      (''email'', [''faker'', ''default'']),
      (''phone'', [''faker'', ''default'']),
      (''address'', [''faker'', ''default'']),
      (''age'', [''faker'', ''default'']),
      (''nationality'', [''country'', ''default'']),
      (''country'', [''country'', ''default''])]"

text \<open>
  The loop \<^verbatim>\<open>for strategy_name in strategies_to_try\<close> of \<^verbatim>\<open>_get_replacement\<close>: the
  first replacement that is not empty and differs from the original, with the name of its
  strategy.
\<close>

fun try_strategies ::
  "(string \<Rightarrow> string) \<Rightarrow> (string \<Rightarrow> string) \<Rightarrow> replacer \<Rightarrow> entity \<Rightarrow> string \<Rightarrow> string list \<Rightarrow> rng
     \<Rightarrow> (string \<times> string) option \<times> rng" where
  "try_strategies lower upper self entity label [] r = (None, r)"
| "try_strategies lower upper self entity label (strategy_name # rest) r =
     (case strategies_get lower upper self strategy_name of
        None \<Rightarrow> try_strategies lower upper self entity label rest r
      | Some strategy \<Rightarrow>
          if s_can_handle strategy label then
            (case s_get_replacement strategy entity r of
               (None, r1) \<Rightarrow> try_strategies lower upper self entity label rest r1
             | (Some replacement, r1) \<Rightarrow>
                 if replacement \<noteq> [] \<and> replacement \<noteq> e_text entity
                 then (Some (replacement, strategy_name), r1)
                 else try_strategies lower upper self entity label rest r1)
          else try_strategies lower upper self entity label rest r)"

text \<open>
  \<^verbatim>\<open>EntityReplacer._get_replacement\<close>: the replacement, the name of the strategy, the
  replacer and the random source after the call. The default strategy does not raise, so
  the last handler of the method never runs.
\<close>

definition replacer_get_replacement ::
  "(string \<Rightarrow> string) \<Rightarrow> (string \<Rightarrow> string) \<Rightarrow> replacer \<Rightarrow> entity \<Rightarrow> bool \<Rightarrow> string option \<Rightarrow> rng
     \<Rightarrow> (string \<times> string) \<times> replacer \<times> rng" where
  "replacer_get_replacement lower upper self entity consistency custom_strategy r =
     (let label = lower (e_label entity);
          original_text = e_text entity;
          cache_key = (label, original_text)
      in
      case (if consistency then map_of (replacement_cache self) cache_key else None) of
        Some (cached_replacement, cached_strategy) \<Rightarrow>
          ((cached_replacement, cached_strategy @ ''_cached''), self, r)
      | None \<Rightarrow>
          let strategies_to_try =
                (case custom_strategy of
                   Some c \<Rightarrow> if c \<noteq> [] then [c]
                             else (case map_of strategy_mapping label of
                                     Some l \<Rightarrow> l | None \<Rightarrow> [''faker'', ''default''])
                 | None \<Rightarrow> (case map_of strategy_mapping label of
                              Some l \<Rightarrow> l | None \<Rightarrow> [''faker'', ''default'']))
          in
          case try_strategies lower upper self entity label strategies_to_try r of
            (Some (replacement, strategy_name), r1) \<Rightarrow>
              ((replacement, strategy_name),
               (if consistency
                then self\<lparr>replacement_cache :=
                             dict_set (replacement_cache self) cache_key (replacement, strategy_name)\<rparr>
                else self),
               r1)
          | (None, r1) \<Rightarrow>
              (case default_get_replacement lower upper entity r1 of
                 (replacement, r2) \<Rightarrow>
                   ((replacement, ''default''),
                    (if consistency
                     then self\<lparr>replacement_cache :=
                                  dict_set (replacement_cache self) cache_key (replacement, ''default'')\<rparr>
                     else self),
                    r2)))"

text \<open>
  One round of the loop \<^verbatim>\<open>for entity in sorted_entities\<close> of \<^verbatim>\<open>EntityReplacer.replace\<close>.
  The state is the replacer, the random source, \<open>replaced_text\<close>, \<open>replacement_details\<close>
  and \<open>replacement_map\<close>; \<open>strategies\<close> is the dictionary of custom strategies.
\<close>

definition replace_entity ::
  "(string \<Rightarrow> string) \<Rightarrow> (string \<Rightarrow> string) \<Rightarrow> bool \<Rightarrow> (string \<times> string) list \<Rightarrow> entity
     \<Rightarrow> replacer \<times> rng \<times> string \<times> replacement_detail list \<times> (string \<times> string) list
     \<Rightarrow> replacer \<times> rng \<times> string \<times> replacement_detail list \<times> (string \<times> string) list" where
  "replace_entity lower upper consistency strategies entity state =
     (case state of (self, r, replaced_text, replacement_details, replacement_map) \<Rightarrow>
        let label = lower (e_label entity);
            original_text = e_text entity;
            start_pos = e_start entity;
            end_pos = e_end entity;
            score = e_score entity
        in
        case replacer_get_replacement lower upper self entity consistency (map_of strategies label) r of
          ((replacement, strategy_used), self', r') \<Rightarrow>
            if replacement \<noteq> [] \<and> replacement \<noteq> original_text then
              (self', r',
               py_prefix replaced_text start_pos @ replacement @ py_suffix replaced_text end_pos,
               replacement_details @
                 [\<lparr>rp_label = label, rp_original = original_text, rp_replacement = replacement,
                   rp_start = start_pos, rp_end = end_pos, rp_score = score,
                   rp_strategy_used = strategy_used\<rparr>],
               dict_set replacement_map original_text replacement)
            else (self', r', replaced_text, replacement_details, replacement_map))"

text \<open>
  The result of \<^verbatim>\<open>replace\<close>. Of \<^verbatim>\<open>replacement_info\<close> the two counters are kept; its
  other entries are computed from the details and the arguments.
\<close>

record replacement_result =
  rs_anonymized_text :: string
  rs_replacements :: "replacement_detail list"
  rs_entities_processed :: nat
  rs_replacements_applied :: nat
  rs_replacement_map :: "(string \<times> string) list"

text \<open>
  \<^verbatim>\<open>EntityReplacer.replace\<close>; it returns the result, the replacer and the random source
  as the call leaves them.
\<close>

definition replace ::
  "(string \<Rightarrow> string) \<Rightarrow> (string \<Rightarrow> string) \<Rightarrow> replacer \<Rightarrow> string \<Rightarrow> entity list \<Rightarrow> bool option
     \<Rightarrow> (string \<times> string) list option \<Rightarrow> rng \<Rightarrow> replacement_result \<times> replacer \<times> rng" where
  "replace lower upper self text entities ensure_consistency_arg custom_strategies r =
     (if entities = [] then
        (\<lparr>rs_anonymized_text = text, rs_replacements = [], rs_entities_processed = 0,
          rs_replacements_applied = 0, rs_replacement_map = []\<rparr>, self, r)
      else
        let consistency = (case ensure_consistency_arg of
                             Some b \<Rightarrow> b | None \<Rightarrow> ensure_consistency self);
            strategies = (case custom_strategies of Some d \<Rightarrow> d | None \<Rightarrow> []);
            sorted_entities = sorted_reverse e_start entities
        in
        case fold (replace_entity lower upper consistency strategies) sorted_entities
                  (self, r, text, [], []) of
          (self', r', replaced_text, replacement_details, replacement_map) \<Rightarrow>
            (\<lparr>rs_anonymized_text = replaced_text,
              rs_replacements = sort_key rp_start replacement_details,
              rs_entities_processed = length entities,
              rs_replacements_applied = length replacement_details,
              rs_replacement_map = replacement_map\<rparr>, self', r'))"

text \<open>
  Example input: a replacer without the synthetic-data library, whose country and date
  strategies handle no label, and an entity whose text is one digit.
\<close>

definition no_strategy :: strategy where
  "no_strategy = \<lparr>s_can_handle = (\<lambda>label. False), s_get_replacement = (\<lambda>entity r. (None, r))\<rparr>"

definition plain_replacer :: replacer where
  "plain_replacer = \<lparr>ensure_consistency = True, replacement_cache = [], faker_strategy = None,
                     country_strategy = no_strategy, date_strategy = no_strategy\<rparr>"


definition seven :: entity where
  "seven = \<lparr>e_label = ''zzz'', e_text = ''7'', e_start = 2, e_end = 3, e_score = 0.9, e_count = None\<rparr>"

text \<open>A detail agrees with the consistency cache of the replacer.\<close>

definition cached_detail :: "replacer \<Rightarrow> replacement_detail \<Rightarrow> bool" where
  "cached_detail self d =
     (\<exists>s. map_of (replacement_cache self) (rp_label d, rp_original d) = Some (rp_replacement d, s))"

text \<open>A detail \<open>d\<close> records a replacement applied to entity \<open>e\<close>.\<close>

definition replacement_of :: "(string \<Rightarrow> string) \<Rightarrow> entity \<Rightarrow> replacement_detail \<Rightarrow> bool" where
  "replacement_of lower e d =
     (rp_label d = lower (e_label e) \<and> rp_original d = e_text e \<and> rp_start d = e_start e
      \<and> rp_end d = e_end e \<and> rp_score d = e_score e
      \<and> rp_replacement d \<noteq> [] \<and> rp_replacement d \<noteq> rp_original d)"

text \<open>Example input: the same entity at two places.\<close>

definition sevens :: "entity list" where
  "sevens =
     [\<lparr>e_label = ''zzz'', e_text = ''7'', e_start = 0, e_end = 1, e_score = 0.9, e_count = None\<rparr>,
      \<lparr>e_label = ''zzz'', e_text = ''7'', e_start = 2, e_end = 3, e_score = 0.8, e_count = None\<rparr>]"

chapter \<open>Properties\<close>

section \<open>Overlap resolution\<close>

lemma resolve_step_eq:
  "resolve_step strategy entities (i, j) R =
     (if i \<in> R \<or> j \<in> R then R else insert (dropped_index strategy entities i j) R)"
  by (simp add: resolve_step_def dropped_index_def Let_def)

lemma dropped_index_cases:
  "dropped_index strategy entities i j = i \<or> dropped_index strategy entities i j = j"
  by (simp add: dropped_index_def)

lemma resolve_step_mono: "R \<subseteq> resolve_step strategy entities p R"
proof (cases p)
  case (Pair i j)
  show ?thesis unfolding Pair resolve_step_eq by (simp add: subset_insertI)
qed

lemma fold_resolve_step_mono:
  "to_remove \<subseteq> fold (resolve_step strategy entities) ps to_remove"
proof (induction ps arbitrary: to_remove)
  case Nil
  show ?case by simp
next
  case (Cons p ps)
  have "to_remove \<subseteq> resolve_step strategy entities p to_remove"
    by (rule resolve_step_mono)
  also have "\<dots> \<subseteq> fold (resolve_step strategy entities) ps (resolve_step strategy entities p to_remove)"
    by (rule Cons.IH)
  finally show ?case by simp
qed

lemma resolve_step_hits:
  "i \<in> resolve_step strategy entities (i, j) R \<or> j \<in> resolve_step strategy entities (i, j) R"
  using dropped_index_cases [of strategy entities i j]
  unfolding resolve_step_eq by (cases "i \<in> R \<or> j \<in> R") auto

lemma fold_resolve_step_hits:
  assumes "(i, j) \<in> set ps"
  shows "i \<in> fold (resolve_step strategy entities) ps to_remove
           \<or> j \<in> fold (resolve_step strategy entities) ps to_remove"
  using assms
proof (induction ps arbitrary: to_remove)
  case Nil
  then show ?case by simp
next
  case (Cons p ps)
  show ?case
  proof (cases "p = (i, j)")
    case True
    have "i \<in> resolve_step strategy entities p to_remove
            \<or> j \<in> resolve_step strategy entities p to_remove"
      unfolding True by (rule resolve_step_hits)
    moreover have "resolve_step strategy entities p to_remove
            \<subseteq> fold (resolve_step strategy entities) ps (resolve_step strategy entities p to_remove)"
      by (rule fold_resolve_step_mono)
    ultimately show ?thesis by auto
  next
    case False
    with Cons.prems have "(i, j) \<in> set ps" by simp
    from Cons.IH [OF this] show ?thesis by simp
  qed
qed

lemma detect_overlaps_complete:
  assumes "i < j" "j < length entities" "entities_overlap (entities ! i) (entities ! j)"
  shows "(i, j) \<in> set (detect_overlaps entities)"
proof -
  have "\<exists>x \<in> {0 ..< length entities}.
          (i, j) \<in> Pair x ` {y. Suc x \<le> y \<and> y < length entities
                                  \<and> entities_overlap (entities ! x) (entities ! y)}"
  proof (rule bexI [where x = i])
    show "(i, j) \<in> Pair i ` {y. Suc i \<le> y \<and> y < length entities
                                  \<and> entities_overlap (entities ! i) (entities ! y)}"
      using assms by simp
    show "i \<in> {0 ..< length entities}" using assms by simp
  qed
  then show ?thesis by (simp add: detect_overlaps_def)
qed

lemma marks_cover_overlaps:
  assumes "i < j" "j < length entities" "entities_overlap (entities ! i) (entities ! j)"
  shows "i \<in> resolve_marks strategy entities (detect_overlaps entities)
           \<or> j \<in> resolve_marks strategy entities (detect_overlaps entities)"
  unfolding resolve_marks_def
  by (rule fold_resolve_step_hits) (rule detect_overlaps_complete [OF assms])

lemma survivors_disjoint:
  "sorted_wrt (\<lambda>a b. \<not> entities_overlap a b)
     (map snd (filter (\<lambda>p. fst p \<notin> resolve_marks strategy entities (detect_overlaps entities))
                      (enumerate 0 entities)))"
proof -
  define R where "R = resolve_marks strategy entities (detect_overlaps entities)"
  define P where "P = (\<lambda>(p :: nat \<times> entity) (q :: nat \<times> entity).
     fst p \<in> R \<or> fst q \<in> R \<or> \<not> entities_overlap (snd p) (snd q))"
  define Q where "Q = (\<lambda>(p :: nat \<times> entity) (q :: nat \<times> entity). \<not> entities_overlap (snd p) (snd q))"
  have all: "sorted_wrt P (enumerate 0 entities)"
    unfolding sorted_wrt_iff_nth_less
  proof (intro allI impI)
    fix a b
    assume ab: "a < b" and b: "b < length (enumerate 0 entities)"
    then have b': "b < length entities" and a': "a < length entities" by simp_all
    have "a \<in> R \<or> b \<in> R \<or> \<not> entities_overlap (entities ! a) (entities ! b)"
      using marks_cover_overlaps [OF ab b', of strategy] unfolding R_def by blast
    then show "P (enumerate 0 entities ! a) (enumerate 0 entities ! b)"
      using a' b' by (simp add: P_def nth_enumerate_eq)
  qed
  have filt: "sorted_wrt P (filter (\<lambda>p. fst p \<notin> R) (enumerate 0 entities))"
    by (rule sorted_wrt_filter [OF all])
  have "sorted_wrt Q (filter (\<lambda>p. fst p \<notin> R) (enumerate 0 entities))"
  proof (rule sorted_wrt_mono_rel [OF _ filt])
    fix x y
    assume "x \<in> set (filter (\<lambda>p. fst p \<notin> R) (enumerate 0 entities))"
       and "y \<in> set (filter (\<lambda>p. fst p \<notin> R) (enumerate 0 entities))"
       and "P x y"
    then show "Q x y" by (simp add: P_def Q_def)
  qed
  then show ?thesis
    unfolding Q_def R_def by (simp add: sorted_wrt_map)
qed

lemma no_overlaps_disjoint:
  assumes "detect_overlaps entities = []"
  shows "sorted_wrt (\<lambda>a b. \<not> entities_overlap a b) entities"
  unfolding sorted_wrt_iff_nth_less
proof (intro allI impI)
  fix a b
  assume "a < b" "b < length entities"
  then show "\<not> entities_overlap (entities ! a) (entities ! b)"
    using detect_overlaps_complete [of a b entities] assms by auto
qed

lemma resolve_overlaps_sorted_wrt:
  "sorted_wrt (\<lambda>a b. \<not> entities_overlap a b) (resolve_overlaps entities strategy)"
proof (cases "entities = []")
  case True
  then show ?thesis by (simp add: resolve_overlaps_def)
next
  case False
  show ?thesis
  proof (cases "detect_overlaps entities = []")
    case True
    with False show ?thesis
      by (simp add: resolve_overlaps_def no_overlaps_disjoint)
  next
    case False
    with \<open>entities \<noteq> []\<close> have "resolve_overlaps entities strategy =
        map snd (filter (\<lambda>p. fst p \<notin> resolve_marks strategy entities (detect_overlaps entities))
                      (enumerate 0 entities))"
      by (simp add: resolve_overlaps_def)
    then show ?thesis by (simp only: survivors_disjoint)
  qed
qed

text \<open>
  C3. No-overlap invariant: whatever the entity list and the strategy string, two spans at
  distinct positions of the list returned by \<open>resolve_overlaps\<close> have intervals that do
  not intersect: the end of one is at most the start of the other.
\<close>

theorem resolve_overlaps_no_overlap:
  "\<forall>a b. a < b \<and> b < length (resolve_overlaps entities strategy) \<longrightarrow>
     e_end (resolve_overlaps entities strategy ! a) \<le> e_start (resolve_overlaps entities strategy ! b)
     \<or> e_end (resolve_overlaps entities strategy ! b) \<le> e_start (resolve_overlaps entities strategy ! a)"
proof (intro allI impI)
  fix a b
  define out where "out = resolve_overlaps entities strategy"
  assume "a < b \<and> b < length (resolve_overlaps entities strategy)"
  then have ab: "a < b" "b < length out" by (simp_all add: out_def)
  have "sorted_wrt (\<lambda>a b. \<not> entities_overlap a b) out"
    unfolding out_def by (rule resolve_overlaps_sorted_wrt)
  with ab have "\<not> entities_overlap (out ! a) (out ! b)"
    by (simp add: sorted_wrt_iff_nth_less)
  then show "e_end (resolve_overlaps entities strategy ! a) \<le> e_start (resolve_overlaps entities strategy ! b)
     \<or> e_end (resolve_overlaps entities strategy ! b) \<le> e_start (resolve_overlaps entities strategy ! a)"
    unfolding out_def entities_overlap_def by simp
qed

lemma ex_detect: "detect_overlaps [ex_a, ex_b, ex_c] = [(0, 1)]"
  by code_simp

lemma ex_resolve: "resolve_overlaps [ex_a, ex_b, ex_c] ''highest_confidence'' = [ex_a, ex_c]"
  by code_simp

theorem resolve_overlaps_no_overlap_witness:
  "(0::nat) < 1 \<and> 1 < length (resolve_overlaps [ex_a, ex_b, ex_c] ''highest_confidence'')
   \<and> (e_end (resolve_overlaps [ex_a, ex_b, ex_c] ''highest_confidence'' ! 0)
          \<le> e_start (resolve_overlaps [ex_a, ex_b, ex_c] ''highest_confidence'' ! 1)
        \<or> e_end (resolve_overlaps [ex_a, ex_b, ex_c] ''highest_confidence'' ! 1)
          \<le> e_start (resolve_overlaps [ex_a, ex_b, ex_c] ''highest_confidence'' ! 0))"
proof -
  have len: "(0::nat) < 1 \<and> 1 < length (resolve_overlaps [ex_a, ex_b, ex_c] ''highest_confidence'')"
    by (simp add: ex_resolve)
  from resolve_overlaps_no_overlap [of "[ex_a, ex_b, ex_c]" "''highest_confidence''", rule_format, OF len]
  have sep: "e_end (resolve_overlaps [ex_a, ex_b, ex_c] ''highest_confidence'' ! 0)
          \<le> e_start (resolve_overlaps [ex_a, ex_b, ex_c] ''highest_confidence'' ! 1)
        \<or> e_end (resolve_overlaps [ex_a, ex_b, ex_c] ''highest_confidence'' ! 1)
          \<le> e_start (resolve_overlaps [ex_a, ex_b, ex_c] ''highest_confidence'' ! 0)" .
  from len sep show ?thesis by blast
qed

lemma detect_overlaps_less:
  assumes "(i, j) \<in> set (detect_overlaps entities)"
  shows "i < j"
  using assms by (auto simp: detect_overlaps_def)

lemma fold_resolve_step_append:
  "fold (resolve_step strategy entities) (pre @ p # post) R
     = fold (resolve_step strategy entities) post
         (fold (resolve_step strategy entities) (pre @ [p]) R)"
  by simp

text \<open>
  C7, as the code has it. With strategy \<open>highest_confidence\<close>, take a detected pair
  \<open>(idx1, idx2)\<close>, in detection order, neither index marked when its round starts. The
  round marks the lower-scoring span, which stays marked to the end and is absent from the
  result; when the two scores are equal the round marks the second span and leaves the
  first unmarked. The result consists of the spans at unmarked indices.
\<close>

theorem highest_confidence_pair:
  assumes dec: "detect_overlaps entities = pre @ (idx1, idx2) # post"
    and n1: "idx1 \<notin> fold (resolve_step ''highest_confidence'' entities) pre {}"
    and n2: "idx2 \<notin> fold (resolve_step ''highest_confidence'' entities) pre {}"
  shows "resolve_overlaps entities ''highest_confidence''
           = map snd (filter (\<lambda>p. fst p \<notin> resolve_marks ''highest_confidence'' entities (detect_overlaps entities))
                        (enumerate 0 entities))
         \<and> (if e_score (entities ! idx1) < e_score (entities ! idx2)
            then idx1 \<in> resolve_marks ''highest_confidence'' entities (detect_overlaps entities)
               \<and> idx2 \<notin> fold (resolve_step ''highest_confidence'' entities) (pre @ [(idx1, idx2)]) {}
            else idx2 \<in> resolve_marks ''highest_confidence'' entities (detect_overlaps entities)
               \<and> idx1 \<notin> fold (resolve_step ''highest_confidence'' entities) (pre @ [(idx1, idx2)]) {})"
proof -
  define R where "R = fold (resolve_step ''highest_confidence'' entities) pre {}"
  define d where "d = dropped_index ''highest_confidence'' entities idx1 idx2"
  define after where "after = fold (resolve_step ''highest_confidence'' entities) (pre @ [(idx1, idx2)]) {}"
  have "(idx1, idx2) \<in> set (detect_overlaps entities)" by (simp add: dec)
  then have lt: "idx1 < idx2" by (rule detect_overlaps_less)
  have ne: "detect_overlaps entities \<noteq> []" by (simp add: dec)
  have ne': "entities \<noteq> []"
  proof
    assume "entities = []"
    then have "detect_overlaps entities = []" by (simp add: detect_overlaps_def)
    with ne show False by simp
  qed
  have out: "resolve_overlaps entities ''highest_confidence''
           = map snd (filter (\<lambda>p. fst p \<notin> resolve_marks ''highest_confidence'' entities (detect_overlaps entities))
                        (enumerate 0 entities))"
    using ne ne' by (simp add: resolve_overlaps_def)
  have after_eq: "after = insert d R"
    using n1 n2 by (simp add: after_def R_def d_def resolve_step_eq)
  have "after \<subseteq> fold (resolve_step ''highest_confidence'' entities) post after"
    by (rule fold_resolve_step_mono)
  also have "\<dots> = resolve_marks ''highest_confidence'' entities (detect_overlaps entities)"
    by (simp add: resolve_marks_def dec after_def)
  finally have final: "d \<in> resolve_marks ''highest_confidence'' entities (detect_overlaps entities)"
    using after_eq by blast
  have d: "d = (if e_score (entities ! idx1) < e_score (entities ! idx2) then idx1 else idx2)"
    by (simp add: d_def dropped_index_def)
  show ?thesis
  proof (cases "e_score (entities ! idx1) < e_score (entities ! idx2)")
    case True
    with d have "d = idx1" by simp
    with final after_eq n2 lt True out show ?thesis
      unfolding R_def after_def by simp
  next
    case False
    with d have "d = idx2" by simp
    with final after_eq n1 lt False out show ?thesis
      unfolding R_def after_def by simp
  qed
qed

text \<open>
  C7 as the specification words it (on a tie the second span is kept) fails: of two
  overlapping spans with the same score the first one is returned and the second dropped.
\<close>

theorem highest_confidence_tie_counterexample:
  "detect_overlaps [tie_a, tie_b] = [(0, 1)]
   \<and> e_score tie_a = e_score tie_b
   \<and> resolve_overlaps [tie_a, tie_b] ''highest_confidence'' = [tie_a]
   \<and> tie_b \<notin> set (resolve_overlaps [tie_a, tie_b] ''highest_confidence'')"
  by code_simp

theorem highest_confidence_pair_witness:
  "detect_overlaps [tie_a, tie_b] = [] @ (0, 1) # []
   \<and> 0 \<notin> fold (resolve_step ''highest_confidence'' [tie_a, tie_b]) [] {}
   \<and> 1 \<notin> fold (resolve_step ''highest_confidence'' [tie_a, tie_b]) [] {}
   \<and> 1 \<in> resolve_marks ''highest_confidence'' [tie_a, tie_b] (detect_overlaps [tie_a, tie_b])
   \<and> 0 \<notin> fold (resolve_step ''highest_confidence'' [tie_a, tie_b]) ([] @ [(0, 1)]) {}"
proof -
  have dec: "detect_overlaps [tie_a, tie_b] = [] @ (0, 1) # []" by code_simp
  have n1: "0 \<notin> fold (resolve_step ''highest_confidence'' [tie_a, tie_b]) [] {}" by simp
  have n2: "1 \<notin> fold (resolve_step ''highest_confidence'' [tie_a, tie_b]) [] {}" by simp
  have sc: "\<not> e_score ([tie_a, tie_b] ! 0) < e_score ([tie_a, tie_b] ! 1)"
    by (simp add: tie_a_def tie_b_def)
  from highest_confidence_pair [OF dec n1 n2] sc
  have "1 \<in> resolve_marks ''highest_confidence'' [tie_a, tie_b] (detect_overlaps [tie_a, tie_b])
   \<and> 0 \<notin> fold (resolve_step ''highest_confidence'' [tie_a, tie_b]) ([] @ [(0, 1)]) {}"
    by (simp only: if_False) blast
  with dec n1 n2 show ?thesis by blast
qed

section \<open>Merging\<close>

text \<open>
  C9. Adjacent-merge scenario: the two spans \<open>person [0, 4)\<close> with score \<open>s1\<close> and
  \<open>person [5, 10)\<close> with score \<open>s2\<close>, given in either order and whatever their other
  fields, are merged with \<open>max_gap = 1\<close> into the single span \<open>[0, 10)\<close> whose text is
  \<^verbatim>\<open>text[0:10]\<close> stripped, whose score is \<open>(s1 * 1 + s2) / 2\<close> and which has no
  \<open>count\<close> key. This holds for every source text, those of length at least 10 included.
\<close>

theorem merge_adjacent_scenario:
  "merge 1 [\<lparr>e_label = ''person'', e_text = t1, e_start = 0, e_end = 4, e_score = s1, e_count = c1\<rparr>,
            \<lparr>e_label = ''person'', e_text = t2, e_start = 5, e_end = 10, e_score = s2, e_count = c2\<rparr>] text
     = Some [\<lparr>e_label = ''person'', e_text = strip (py_slice text 0 10), e_start = 0, e_end = 10,
              e_score = (s1 * 1 + s2) / 2, e_count = None\<rparr>]
   \<and> merge 1 [\<lparr>e_label = ''person'', e_text = t2, e_start = 5, e_end = 10, e_score = s2, e_count = c2\<rparr>,
              \<lparr>e_label = ''person'', e_text = t1, e_start = 0, e_end = 4, e_score = s1, e_count = c1\<rparr>] text
     = Some [\<lparr>e_label = ''person'', e_text = strip (py_slice text 0 10), e_start = 0, e_end = 10,
              e_score = (s1 * 1 + s2) / 2, e_count = None\<rparr>]"
  by (simp add: merge_def)

section \<open>Redaction\<close>

subsection \<open>Evaluating the id generator\<close>

lemma find_free_id_used: "str_nat c \<in> set used \<Longrightarrow> find_free_id used c = find_free_id used (Suc c)"
  by (subst find_free_id.simps) simp

lemma find_free_id_free: "str_nat c \<notin> set used \<Longrightarrow> find_free_id used c = c"
  by (subst find_free_id.simps) simp

lemma digit_chars:
  "(char_of (49::nat) :: char) = CHR ''1''" "(char_of (50::nat) :: char) = CHR ''2''"
  "(char_of (51::nat) :: char) = CHR ''3''" "(char_of (52::nat) :: char) = CHR ''4''"
  by code_simp+

lemma str_nat_digits:
  "str_nat 1 = ''1''" "str_nat 2 = ''2''" "str_nat 3 = ''3''" "str_nat 4 = ''4''"
  by (subst str_nat.simps, simp add: digit_chars)+

lemma str_nat_Suc_digits:
  "str_nat (Suc 0) = ''1''" "str_nat (Suc (Suc 0)) = ''2''" "str_nat (Suc (Suc (Suc 0))) = ''3''"
  using str_nat_digits by (simp_all add: numeral_2_eq_2 numeral_3_eq_3)

lemma upper_person: "ascii_upper ''person'' = ''PERSON''"
  by code_simp

lemma g1: "generate_unique_id (new_redactor f) ''PERSON''
   = (''1'', (new_redactor f)\<lparr>used_ids_per_label := (\<lambda>_. [])(''PERSON'' := [''1''])\<rparr>)"
  by (simp add: generate_unique_id_def new_redactor_def find_free_id_free str_nat_Suc_digits)

lemma john_simps:
  "e_label john = ''person''" "e_text john = ''John''" "e_start john = 0" "e_end john = 4"
  "e_score john = 0.9"
  by (simp_all add: john_def)

lemma gen_simp:
  "generate_unique_id self label =
     (str_nat (find_free_id (used_ids_per_label self label) 1),
      self\<lparr>used_ids_per_label := (used_ids_per_label self)
              (label := List.insert (str_nat (find_free_id (used_ids_per_label self label) 1))
                                     (used_ids_per_label self label))\<rparr>)"
  by (simp add: generate_unique_id_def Let_def)

subsection \<open>The id map\<close>

lemma find_free_id_spec:
  "c \<le> find_free_id used c \<and> str_nat (find_free_id used c) \<notin> set used
   \<and> (\<forall>m. c \<le> m \<and> m < find_free_id used c \<longrightarrow> str_nat m \<in> set used)"
proof (induction used c rule: find_free_id.induct)
  case (1 used c)
  show ?case
  proof (cases "str_nat c \<in> set used")
    case True
    then have eq: "find_free_id used c = find_free_id used (c + 1)"
      by (subst find_free_id.simps) simp
    from "1.IH" [OF True] have ih: "c + 1 \<le> find_free_id used (c + 1)"
      "str_nat (find_free_id used (c + 1)) \<notin> set used"
      "\<forall>m. c + 1 \<le> m \<and> m < find_free_id used (c + 1) \<longrightarrow> str_nat m \<in> set used"
      by simp_all
    have "\<forall>m. c \<le> m \<and> m < find_free_id used (c + 1) \<longrightarrow> str_nat m \<in> set used"
    proof (intro allI impI)
      fix m assume m: "c \<le> m \<and> m < find_free_id used (c + 1)"
      show "str_nat m \<in> set used"
      proof (cases "m = c")
        case True with \<open>str_nat c \<in> set used\<close> show ?thesis by simp
      next
        case False with m have "c + 1 \<le> m \<and> m < find_free_id used (c + 1)" by simp
        with ih(3) show ?thesis by blast
      qed
    qed
    with ih(1,2) show ?thesis unfolding eq by simp
  next
    case False
    then have "find_free_id used c = c" by (subst find_free_id.simps) simp
    with False show ?thesis by auto
  qed
qed

lemma dict_set_new: "map_of d k = None \<Longrightarrow> dict_set d k v = d @ [(k, v)]"
  by (induction d) (auto split: if_splits)

lemma map_of_None_iff: "map_of d k = None \<longleftrightarrow> k \<notin> fst ` set d"
  by (simp add: map_of_eq_None_iff)

lemma ids_before_append_old:
  "j < length al \<Longrightarrow> ids_before upper (al @ [p]) j = ids_before upper al j"
  by (simp add: ids_before_def nth_append)

lemma ids_before_append_new:
  "ids_before upper (al @ [(k, v)]) (length al) = ids_of_label upper (upper (fst k)) al"
  by (simp add: ids_before_def)

lemma ids_of_label_append:
  "ids_of_label upper L (al @ [(k, v)]) = (if upper (fst k) = L then insert v (ids_of_label upper L al) else ids_of_label upper L al)"
  by (simp add: ids_of_label_def)

lemma id_inv_step:
  assumes inv: "id_inv upper self al" and new: "map_of al k = None"
    and gen: "generate_unique_id self (upper (fst k)) = (uid, self')"
  shows "id_inv upper self' (al @ [(k, uid)])"
proof -
  define used where "used = used_ids_per_label self (upper (fst k))"
  define n where "n = find_free_id used 1"
  have "generate_unique_id self (upper (fst k)) = (str_nat n, self\<lparr>used_ids_per_label :=
                 (used_ids_per_label self)(upper (fst k) := List.insert (str_nat n) used)\<rparr>)"
    unfolding generate_unique_id_def Let_def used_def n_def by simp
  then have g: "(uid, self') = (str_nat n, self\<lparr>used_ids_per_label :=
                 (used_ids_per_label self)(upper (fst k) := List.insert (str_nat n) used)\<rparr>)"
    unfolding gen .
  have uid: "uid = str_nat n" using arg_cong [OF g, of fst] by simp
  have self': "self' = self\<lparr>used_ids_per_label :=
                 (used_ids_per_label self)(upper (fst k) := List.insert (str_nat n) used)\<rparr>"
    using arg_cong [OF g, of snd] by simp
  from inv have d: "distinct (map fst al)"
    and u: "\<And>L. set (used_ids_per_label self L) = ids_of_label upper L al"
    and s: "\<And>j. j < length al \<Longrightarrow> smallest_unused (ids_before upper al j) (snd (al ! j))"
    by (simp_all add: id_inv_def)
  from find_free_id_spec [of 1 used]
  have n: "0 < n" "str_nat n \<notin> set used" "\<forall>m. 0 < m \<and> m < n \<longrightarrow> str_nat m \<in> set used"
    unfolding n_def by (simp_all add: Suc_le_eq)
  have 1: "distinct (map fst (al @ [(k, uid)]))"
    using d new by (simp add: map_of_None_iff)
  have 2: "set (used_ids_per_label self' L) = ids_of_label upper L (al @ [(k, uid)])" for L
  proof (cases "L = upper (fst k)")
    case True
    have "set (used_ids_per_label self' L) = insert uid (set used)"
      by (simp add: self' True uid)
    also have "set used = ids_of_label upper L al"
      unfolding used_def True by (rule u)
    finally show ?thesis using True by (simp add: ids_of_label_append)
  next
    case False
    have "set (used_ids_per_label self' L) = set (used_ids_per_label self L)"
      using False by (simp add: self')
    also have "\<dots> = ids_of_label upper L al" by (rule u)
    finally show ?thesis using False by (simp add: ids_of_label_append)
  qed
  have 3: "smallest_unused (ids_before upper (al @ [(k, uid)]) j) (snd ((al @ [(k, uid)]) ! j))"
    if j: "j < length (al @ [(k, uid)])" for j
  proof (cases "j < length al")
    case True
    then show ?thesis using s [OF True] by (simp add: ids_before_append_old nth_append)
  next
    case False
    with j have j': "j = length al" by simp
    have "ids_before upper (al @ [(k, uid)]) (length al) = set used"
      unfolding ids_before_append_new used_def by (simp add: u)
    moreover have "smallest_unused (set used) uid"
      unfolding smallest_unused_def uid using n by blast
    ultimately show ?thesis unfolding j' by simp
  qed
  show ?thesis unfolding id_inv_def
  proof (intro conjI allI impI)
    show "distinct (map fst (al @ [(k, uid)]))" by (rule 1)
  next
    fix L show "set (used_ids_per_label self' L) = ids_of_label upper L (al @ [(k, uid)])" by (rule 2)
  next
    fix j assume "j < length (al @ [(k, uid)])"
    then show "smallest_unused (ids_before upper (al @ [(k, uid)]) j) (snd ((al @ [(k, uid)]) ! j))"
      by (rule 3)
  qed
qed

lemma build_loop_inv:
  assumes "id_inv upper self al" "build_entity_id_map_loop upper self al es = (al', self')"
  shows "id_inv upper self' al' \<and> fst ` set al' = fst ` set al \<union> (\<lambda>e. (e_label e, e_text e)) ` set es"
  using assms
proof (induction es arbitrary: self al)
  case Nil
  then show ?case by simp
next
  case (Cons e es)
  define k where "k = (e_label e, e_text e)"
  show ?case
  proof (cases "map_of al k = None")
    case True
    obtain uid s1 where gen: "generate_unique_id self (upper (e_label e)) = (uid, s1)"
      by (cases "generate_unique_id self (upper (e_label e))")
    from gen have gen': "generate_unique_id self (upper (fst k)) = (uid, s1)" by (simp add: k_def)
    have inv1: "id_inv upper s1 (al @ [(k, uid)])"
      by (rule id_inv_step [OF Cons.prems(1) True gen'])
    from Cons.prems(2) True gen
    have "build_entity_id_map_loop upper s1 (al @ [(k, uid)]) es = (al', self')"
      by (simp add: dict_set_new k_def Let_def)
    from Cons.IH [OF inv1 this]
    have ih: "id_inv upper self' al'"
      "fst ` set al' = fst ` set (al @ [(k, uid)]) \<union> (\<lambda>e. (e_label e, e_text e)) ` set es"
      by simp_all
    have "fst ` set (al @ [(k, uid)]) = insert k (fst ` set al)" by simp
    with ih(2) have "fst ` set al' = fst ` set al \<union> (\<lambda>e. (e_label e, e_text e)) ` set (e # es)"
      by (simp add: k_def)
    with ih(1) show ?thesis by simp
  next
    case False
    with Cons.prems(2) have "build_entity_id_map_loop upper self al es = (al', self')"
      by (auto simp: k_def Let_def)
    from Cons.IH [OF Cons.prems(1) this]
    have ih: "id_inv upper self' al'"
      "fst ` set al' = fst ` set al \<union> (\<lambda>e. (e_label e, e_text e)) ` set es"
      by simp_all
    from False have "k \<in> fst ` set al" by (simp add: map_of_None_iff)
    then have "fst ` set al \<union> (\<lambda>e. (e_label e, e_text e)) ` set (e # es)
                 = fst ` set al \<union> (\<lambda>e. (e_label e, e_text e)) ` set es"
      unfolding k_def by auto
    with ih(2) have "fst ` set al' = fst ` set al \<union> (\<lambda>e. (e_label e, e_text e)) ` set (e # es)"
      by (simp only:)
    with ih(1) show ?thesis by simp
  qed
qed



lemma id_inv_fresh: "used_ids_per_label self = (\<lambda>_. []) \<Longrightarrow> id_inv upper self []"
  by (simp add: id_inv_def ids_of_label_def)

lemma ids_before_mem:
  assumes "i < j" "j < length al" "upper (fst (fst (al ! i))) = upper (fst (fst (al ! j)))"
  shows "snd (al ! i) \<in> ids_before upper al j"
proof -
  have "take j al ! i = al ! i" using assms(1) by simp
  moreover have "i < length (take j al)" using assms(1,2) by simp
  ultimately have "al ! i \<in> set (take j al)" by (metis nth_mem)
  with assms(3) have "al ! i \<in> set (filter (\<lambda>p. upper (fst (fst p)) = upper (fst (fst (al ! j)))) (take j al))"
    by simp
  then have "snd (al ! i) \<in> snd ` set (filter (\<lambda>p. upper (fst (fst p)) = upper (fst (fst (al ! j)))) (take j al))"
    by (rule imageI)
  then show ?thesis
    unfolding ids_before_def ids_of_label_def by simp
qed

lemma id_inv_ids_differ:
  assumes inv: "id_inv upper self al" and ij: "i < j" "j < length al"
    and lab: "upper (fst (fst (al ! i))) = upper (fst (fst (al ! j)))"
  shows "snd (al ! i) \<noteq> snd (al ! j)"
proof -
  from inv ij(2) have "smallest_unused (ids_before upper al j) (snd (al ! j))"
    by (simp add: id_inv_def)
  then obtain n where "snd (al ! j) = str_nat n" "str_nat n \<notin> ids_before upper al j"
    unfolding smallest_unused_def by auto
  then have "snd (al ! j) \<notin> ids_before upper al j" by simp
  moreover have "snd (al ! i) \<in> ids_before upper al j" by (rule ids_before_mem [OF ij lab])
  ultimately show ?thesis by auto
qed

lemma id_inv_keys_differ:
  assumes inv: "id_inv upper self al"
    and k1: "map_of al k1 = Some i1" and k2: "map_of al k2 = Some i2"
    and ne: "k1 \<noteq> k2" and lab: "upper (fst k1) = upper (fst k2)"
  shows "i1 \<noteq> i2"
proof -
  from k1 have "(k1, i1) \<in> set al" by (rule map_of_SomeD)
  then obtain a where a: "a < length al" "al ! a = (k1, i1)" by (auto simp: in_set_conv_nth)
  from k2 have "(k2, i2) \<in> set al" by (rule map_of_SomeD)
  then obtain b where b: "b < length al" "al ! b = (k2, i2)" by (auto simp: in_set_conv_nth)
  from a b ne have "a \<noteq> b" by auto
  then consider "a < b" | "b < a" by linarith
  then show ?thesis
  proof cases
    case 1
    from id_inv_ids_differ [OF inv 1 b(1)] a b lab show ?thesis by simp
  next
    case 2
    from id_inv_ids_differ [OF inv 2 a(1)] a b lab show ?thesis by simp
  qed
qed

lemma redact_entity_consistent:
  "redact_entity upper fmt fs True True al e (s, t, ds, m) =
     (case map_of al (e_label e, e_text e) of
        None \<Rightarrow> (s, t, ds, m)
      | Some i \<Rightarrow>
          (case fmt fs i (upper (e_label e)) of
             None \<Rightarrow> (s, t, ds, m)
           | Some p \<Rightarrow>
               (s, py_prefix t (e_start e) @ p @ py_suffix t (e_end e),
                ds @ [\<lparr>rd_label = upper (e_label e), rd_original = e_text e, rd_placeholder = p,
                        rd_start = e_start e, rd_end = e_end e, rd_score = e_score e,
                        rd_redaction_id = i\<rparr>],
                dict_set m p (e_text e))))"
proof (cases "map_of al (e_label e, e_text e)")
  case None
  then show ?thesis by (simp add: redact_entity_def Let_def)
next
  case (Some i)
  note key = this
  show ?thesis
  proof (cases "fmt fs i (upper (e_label e))")
    case None
    with key show ?thesis by (simp add: redact_entity_def Let_def)
  next
    case (Some p)
    with key show ?thesis by (simp add: redact_entity_def Let_def)
  qed
qed

lemma redact_entity_details:
  assumes "redact_entity upper fmt fs True True al e (s, t, ds, m) = (s', t', ds', m')"
  shows "ds' = ds \<or> (\<exists>d. redaction_of upper al e d \<and> ds' = ds @ [d])"
proof (cases "map_of al (e_label e, e_text e)")
  case None
  with assms show ?thesis by (simp add: redact_entity_consistent)
next
  case (Some i)
  show ?thesis
  proof (cases "fmt fs i (upper (e_label e))")
    case None
    with Some assms show ?thesis by (simp add: redact_entity_consistent)
  next
    case (Some p)
    define d where "d = \<lparr>rd_label = upper (e_label e), rd_original = e_text e, rd_placeholder = p,
                        rd_start = e_start e, rd_end = e_end e, rd_score = e_score e,
                        rd_redaction_id = i\<rparr>"
    from assms Some \<open>map_of al (e_label e, e_text e) = Some i\<close>
    have "ds' = ds @ [d]" by (simp add: redact_entity_consistent d_def)
    moreover have "redaction_of upper al e d"
      using \<open>map_of al (e_label e, e_text e) = Some i\<close> by (simp add: redaction_of_def d_def)
    ultimately show ?thesis by blast
  qed
qed

lemma fold_redact_entity_details:
  assumes "fold (redact_entity upper fmt fs True True al) es (s, t, ds, m) = (s', t', ds', m')"
    and "\<forall>d \<in> set ds. \<exists>e \<in> E. redaction_of upper al e d" and "set es \<subseteq> E"
  shows "\<forall>d \<in> set ds'. \<exists>e \<in> E. redaction_of upper al e d"
  using assms
proof (induction es arbitrary: s t ds m)
  case Nil
  then show ?case by simp
next
  case (Cons e es)
  obtain s1 t1 ds1 m1 where step: "redact_entity upper fmt fs True True al e (s, t, ds, m) = (s1, t1, ds1, m1)"
    by (cases "redact_entity upper fmt fs True True al e (s, t, ds, m)") auto
  from redact_entity_details [OF step]
  have "ds1 = ds \<or> (\<exists>d. redaction_of upper al e d \<and> ds1 = ds @ [d])" .
  moreover have "e \<in> E" using Cons.prems(3) by simp
  ultimately have inv1: "\<forall>d \<in> set ds1. \<exists>e \<in> E. redaction_of upper al e d"
    using Cons.prems(2) by auto
  from Cons.prems(1) step
  have "fold (redact_entity upper fmt fs True True al) es (s1, t1, ds1, m1) = (s', t', ds', m')" by simp
  from Cons.IH [OF this inv1] Cons.prems(3) show ?case by simp
qed

lemma redact_details:
  assumes run: "redact upper fmt self text entities True placeholder_format preserve_case True = (result, self')"
  shows "\<forall>d \<in> set (rr_replacements result).
           \<exists>e \<in> set entities. redaction_of upper (fst (build_entity_id_map upper self entities)) e d"
proof (cases "entities = []")
  case True
  with run show ?thesis by (auto simp: redact_def)
next
  case False
  obtain al s1 where b: "build_entity_id_map upper self entities = (al, s1)"
    by (cases "build_entity_id_map upper self entities")
  define fs where "fs = (case placeholder_format of None \<Rightarrow> default_format self
                          | Some f \<Rightarrow> if f = [] then default_format self else f)"
  obtain s2 t2 ds2 m2
    where f: "fold (redact_entity upper fmt fs True True al) (sorted_reverse e_start entities) (s1, text, [], [])
                = (s2, t2, ds2, m2)"
    by (cases "fold (redact_entity upper fmt fs True True al) (sorted_reverse e_start entities) (s1, text, [], [])") auto
  have "redact upper fmt self text entities True placeholder_format preserve_case True
          = (\<lparr>rr_anonymized_text = t2, rr_replacements = sort_key rd_start ds2,
               rr_entities_processed = length entities, rr_redactions_applied = length ds2,
               rr_re_identification_map = m2\<rparr>, s2)"
    by (simp add: redact_def False b Let_def fs_def [symmetric] f)
  with run have res: "rr_replacements result = sort_key rd_start ds2" by auto
  have "set (sorted_reverse e_start entities) \<subseteq> set entities"
    by (simp add: sorted_reverse_def)
  from fold_redact_entity_details [OF f _ this]
  have "\<forall>d \<in> set ds2. \<exists>e \<in> set entities. redaction_of upper al e d" by simp
  then show ?thesis by (simp add: res b)
qed

lemma redaction_detail_of_sound:
  "redaction_detail_of upper fmt fs al e = Some d \<Longrightarrow> redaction_of upper al e d"
  by (auto simp: redaction_detail_of_def redaction_of_def split: option.splits)

lemma fold_redact_entity_exact:
  "\<exists>s' t' m'. fold (redact_entity upper fmt fs True True al) es (s, t, ds, m)
      = (s', t', ds @ List.map_filter (redaction_detail_of upper fmt fs al) es, m')"
proof (induction es arbitrary: s t ds m)
  case Nil
  show ?case by (simp add: List.map_filter_simps)
next
  case (Cons e es)
  show ?case
  proof (cases "redaction_detail_of upper fmt fs al e")
    case None
    then have "redact_entity upper fmt fs True True al e (s, t, ds, m) = (s, t, ds, m)"
      by (auto simp: redact_entity_consistent redaction_detail_of_def split: option.splits)
    with None Cons.IH [of s t ds m] show ?thesis by (simp add: List.map_filter_simps)
  next
    case (Some d)
    then obtain t1 m1 where "redact_entity upper fmt fs True True al e (s, t, ds, m) = (s, t1, ds @ [d], m1)"
      by (auto simp: redact_entity_consistent redaction_detail_of_def split: option.splits)
    with Some Cons.IH [of s t1 "ds @ [d]" m1] show ?thesis by (simp add: List.map_filter_simps)
  qed
qed

lemma redact_details_exact:
  assumes run: "redact upper fmt self text entities True placeholder_format preserve_case True = (result, self')"
  shows "rr_replacements result =
           sort_key rd_start (List.map_filter
             (redaction_detail_of upper fmt
                (case placeholder_format of None \<Rightarrow> default_format self
                 | Some f \<Rightarrow> if f = [] then default_format self else f)
                (fst (build_entity_id_map upper self entities)))
             (sorted_reverse e_start entities))"
proof (cases "entities = []")
  case True
  with run show ?thesis by (auto simp: redact_def sorted_reverse_def List.map_filter_simps)
next
  case False
  obtain al s1 where b: "build_entity_id_map upper self entities = (al, s1)"
    by (cases "build_entity_id_map upper self entities")
  define fs where "fs = (case placeholder_format of None \<Rightarrow> default_format self
                          | Some f \<Rightarrow> if f = [] then default_format self else f)"
  from fold_redact_entity_exact [of upper fmt fs al "sorted_reverse e_start entities" s1 "text" "[]" "[]"]
  obtain s2 t2 m2
    where f: "fold (redact_entity upper fmt fs True True al) (sorted_reverse e_start entities) (s1, text, [], [])
                = (s2, t2, List.map_filter (redaction_detail_of upper fmt fs al) (sorted_reverse e_start entities), m2)"
    by auto
  have "redact upper fmt self text entities True placeholder_format preserve_case True
          = (\<lparr>rr_anonymized_text = t2,
               rr_replacements = sort_key rd_start
                 (List.map_filter (redaction_detail_of upper fmt fs al) (sorted_reverse e_start entities)),
               rr_entities_processed = length entities,
               rr_redactions_applied =
                 length (List.map_filter (redaction_detail_of upper fmt fs al) (sorted_reverse e_start entities)),
               rr_re_identification_map = m2\<rparr>, s2)"
    by (simp add: redact_def False b Let_def fs_def [symmetric] f)
  with run have "rr_replacements result = sort_key rd_start
                 (List.map_filter (redaction_detail_of upper fmt fs al) (sorted_reverse e_start entities))"
    by auto
  then show ?thesis unfolding fs_def b by simp
qed

text \<open>
  C2, as the code has it. Take one call of \<open>redact\<close> with \<open>numbered\<close> and
  \<open>consistent_ids\<close> on, on a redactor with no used ids, and the id map \<open>entity_to_id\<close>
  that the call builds. The recorded details are, sorted by start, the details of the
  entities in the order of processing, each with the id that the map gives to its own
  \<open>(label, text)\<close>. So two entities with identical \<open>(label, text)\<close> carry the identical
  id. The redactor files the ids it has used under the upper-cased label: entities with
  distinct pairs whose labels have the same upper-cased form, those with the same label
  among them, carry distinct ids; every pair of the input has an entry; and the id of each
  entry is the smallest positive integer not used before it for that upper-cased label,
  hence 1 for the first pair of each upper-cased label. \<open>upper\<close> stands for
  \<^verbatim>\<open>str.upper\<close> and may be any function.
\<close>

theorem redact_id_stability:
  assumes fresh: "used_ids_per_label self = (\<lambda>_. [])"
    and run: "redact upper fmt self text entities True placeholder_format preserve_case True = (result, self')"
    and al: "entity_to_id = fst (build_entity_id_map upper self entities)"
  shows "rr_replacements result =
           sort_key rd_start (List.map_filter
             (redaction_detail_of upper fmt
                (case placeholder_format of None \<Rightarrow> default_format self
                 | Some f \<Rightarrow> if f = [] then default_format self else f)
                entity_to_id)
             (sorted_reverse e_start entities))
    \<and> (\<forall>fs e d. redaction_detail_of upper fmt fs entity_to_id e = Some d
          \<longrightarrow> redaction_of upper entity_to_id e d)
    \<and> (\<forall>d \<in> set (rr_replacements result). \<exists>e \<in> set entities. redaction_of upper entity_to_id e d)
    \<and> (\<forall>e1 e2 d1 d2. redaction_of upper entity_to_id e1 d1 \<and> redaction_of upper entity_to_id e2 d2 \<longrightarrow>
          (e_label e1 = e_label e2 \<and> e_text e1 = e_text e2 \<longrightarrow> rd_redaction_id d1 = rd_redaction_id d2)
        \<and> ((e_label e1, e_text e1) \<noteq> (e_label e2, e_text e2) \<and> upper (e_label e1) = upper (e_label e2)
              \<longrightarrow> rd_redaction_id d1 \<noteq> rd_redaction_id d2))
    \<and> distinct (map fst entity_to_id)
    \<and> fst ` set entity_to_id = (\<lambda>e. (e_label e, e_text e)) ` set entities
    \<and> (\<forall>j < length entity_to_id. smallest_unused (ids_before upper entity_to_id j) (snd (entity_to_id ! j)))"
proof -
  obtain s1 where b: "build_entity_id_map_loop upper self [] entities = (entity_to_id, s1)"
    using al by (cases "build_entity_id_map_loop upper self [] entities") (simp add: build_entity_id_map_def)
  from build_loop_inv [OF id_inv_fresh [OF fresh] b]
  have inv: "id_inv upper s1 entity_to_id"
    and keys: "fst ` set entity_to_id = (\<lambda>e. (e_label e, e_text e)) ` set entities"
    by simp_all
  have A: "\<forall>d \<in> set (rr_replacements result). \<exists>e \<in> set entities. redaction_of upper entity_to_id e d"
    unfolding al by (rule redact_details [OF run])
  have B: "\<forall>e1 e2 d1 d2. redaction_of upper entity_to_id e1 d1 \<and> redaction_of upper entity_to_id e2 d2 \<longrightarrow>
          (e_label e1 = e_label e2 \<and> e_text e1 = e_text e2 \<longrightarrow> rd_redaction_id d1 = rd_redaction_id d2)
        \<and> ((e_label e1, e_text e1) \<noteq> (e_label e2, e_text e2) \<and> upper (e_label e1) = upper (e_label e2)
              \<longrightarrow> rd_redaction_id d1 \<noteq> rd_redaction_id d2)"
  proof (intro allI impI conjI)
    fix e1 e2 d1 d2
    assume r: "redaction_of upper entity_to_id e1 d1 \<and> redaction_of upper entity_to_id e2 d2"
    { assume eq: "e_label e1 = e_label e2 \<and> e_text e1 = e_text e2"
      from r have "map_of entity_to_id (e_label e1, e_text e1) = Some (rd_redaction_id d1)"
        and "map_of entity_to_id (e_label e2, e_text e2) = Some (rd_redaction_id d2)"
        by (simp_all add: redaction_of_def)
      with eq have "Some (rd_redaction_id d1) = Some (rd_redaction_id d2)" by simp
      then show "rd_redaction_id d1 = rd_redaction_id d2" by simp }
    { assume ne: "(e_label e1, e_text e1) \<noteq> (e_label e2, e_text e2) \<and> upper (e_label e1) = upper (e_label e2)"
      from r have m1: "map_of entity_to_id (e_label e1, e_text e1) = Some (rd_redaction_id d1)"
        and m2: "map_of entity_to_id (e_label e2, e_text e2) = Some (rd_redaction_id d2)"
        by (simp_all add: redaction_of_def)
      from ne have n1: "(e_label e1, e_text e1) \<noteq> (e_label e2, e_text e2)"
        and n2: "upper (fst (e_label e1, e_text e1)) = upper (fst (e_label e2, e_text e2))" by simp_all
      show "rd_redaction_id d1 \<noteq> rd_redaction_id d2"
        by (rule id_inv_keys_differ [OF inv m1 m2 n1 n2]) }
  qed
  from inv have C: "distinct (map fst entity_to_id)"
    and D: "\<forall>j < length entity_to_id. smallest_unused (ids_before upper entity_to_id j) (snd (entity_to_id ! j))"
    by (simp_all add: id_inv_def)
  have E: "rr_replacements result =
           sort_key rd_start (List.map_filter
             (redaction_detail_of upper fmt
                (case placeholder_format of None \<Rightarrow> default_format self
                 | Some f \<Rightarrow> if f = [] then default_format self else f)
                entity_to_id)
             (sorted_reverse e_start entities))"
    unfolding al by (rule redact_details_exact [OF run])
  have F: "\<forall>fs e d. redaction_detail_of upper fmt fs entity_to_id e = Some d
          \<longrightarrow> redaction_of upper entity_to_id e d"
    using redaction_detail_of_sound by blast
  show ?thesis
    apply (rule conjI [OF E])
    apply (rule conjI [OF F])
    apply (rule conjI [OF A])
    apply (rule conjI [OF B])
    apply (rule conjI [OF C])
    apply (rule conjI [OF keys])
    apply (rule D)
    done
qed


lemma upper_PERSON: "ascii_upper ''PERSON'' = ''PERSON''"
  by code_simp

lemma doc_id_map:
  "fst (build_entity_id_map ascii_upper (new_redactor ''#{id}_{label}_REDACTED'') doc_entities)
     = [((''person'', ''John''), ''1''), ((''person'', ''Mary''), ''2'')]"
  by (simp add: build_entity_id_map_def doc_entities_def gen_simp new_redactor_def upper_person
      find_free_id_free find_free_id_used str_nat_Suc_digits str_nat_digits Let_def)

lemma doc_redact_ids:
  "map rd_redaction_id (rr_replacements (fst
     (redact ascii_upper format_default (new_redactor ''#{id}_{label}_REDACTED'') doc_text doc_entities
        True None False True)))
   = [''1'', ''2'', ''1'']"
  by (simp add: redact_def build_entity_id_map_def redact_entity_def doc_entities_def doc_text_def
      sorted_reverse_def gen_simp new_redactor_def upper_person format_default_def
      find_free_id_free find_free_id_used str_nat_Suc_digits str_nat_digits Let_def)

theorem redact_id_stability_witness:
  "used_ids_per_label (new_redactor ''#{id}_{label}_REDACTED'') = (\<lambda>_. [])
   \<and> map rd_redaction_id (rr_replacements (fst
        (redact ascii_upper format_default (new_redactor ''#{id}_{label}_REDACTED'') doc_text doc_entities
           True None False True))) = [''1'', ''2'', ''1'']
   \<and> distinct (map fst (fst (build_entity_id_map ascii_upper (new_redactor ''#{id}_{label}_REDACTED'') doc_entities)))
   \<and> smallest_unused
        (ids_before ascii_upper (fst (build_entity_id_map ascii_upper (new_redactor ''#{id}_{label}_REDACTED'') doc_entities)) 1)
        (snd (fst (build_entity_id_map ascii_upper (new_redactor ''#{id}_{label}_REDACTED'') doc_entities) ! 1))"
proof -
  define self where "self = new_redactor ''#{id}_{label}_REDACTED''"
  define r where "r = redact ascii_upper format_default self doc_text doc_entities True None False True"
  define al where "al = fst (build_entity_id_map ascii_upper self doc_entities)"
  have fresh: "used_ids_per_label self = (\<lambda>_. [])" by (simp add: self_def new_redactor_def)
  have run: "redact ascii_upper format_default self doc_text doc_entities True None False True = (fst r, snd r)"
    by (simp add: r_def)
  note st = redact_id_stability [OF fresh run al_def]
  from st have d: "distinct (map fst al)" by (elim conjE)
  from st have s: "\<forall>j < length al. smallest_unused (ids_before ascii_upper al j) (snd (al ! j))" by (elim conjE)
  have "1 < length al" unfolding al_def self_def by (simp add: doc_id_map)
  with s have s1: "smallest_unused (ids_before ascii_upper al 1) (snd (al ! 1))" by blast
  have ids: "map rd_redaction_id (rr_replacements (fst r)) = [''1'', ''2'', ''1'']"
    unfolding r_def self_def by (rule doc_redact_ids)
  from fresh ids d s1 show ?thesis unfolding r_def al_def self_def by blast
qed


lemma upper_Person: "ascii_upper ''Person'' = ''PERSON''"
  by code_simp

lemma case_id_map:
  "fst (build_entity_id_map ascii_upper (new_redactor ''#{id}_{label}_REDACTED'') case_entities)
     = [((''person'', ''John''), ''1''), ((''Person'', ''Mary''), ''2''), ((''Person'', ''Ann''), ''3'')]"
  by (simp add: build_entity_id_map_def case_entities_def gen_simp new_redactor_def upper_person
      upper_Person find_free_id_free find_free_id_used str_nat_Suc_digits str_nat_digits Let_def)

lemma case_redact_ids:
  "map rd_redaction_id (rr_replacements (fst
     (redact ascii_upper format_default (new_redactor ''#{id}_{label}_REDACTED'') case_text case_entities
        True None False True)))
   = [''1'', ''2'', ''3'']"
  by (simp add: redact_def build_entity_id_map_def redact_entity_def case_entities_def case_text_def
      sorted_reverse_def gen_simp new_redactor_def upper_person upper_Person format_default_def
      find_free_id_free find_free_id_used str_nat_Suc_digits str_nat_digits Let_def)

lemma not_smallest_unused_2: "\<not> smallest_unused {} ''2''"
proof
  assume "smallest_unused {} ''2''"
  then obtain n where n: "''2'' = str_nat n" "0 < n" "\<forall>m. 0 < m \<and> m < n \<longrightarrow> str_nat m \<in> {}"
    unfolding smallest_unused_def by auto
  have "n = 1"
  proof (rule ccontr)
    assume "n \<noteq> 1"
    with n(2) have "0 < (1::nat) \<and> 1 < n" by simp
    with n(3) have "str_nat 1 \<in> {}" by blast
    then show False by simp
  qed
  with n(1) show False by (simp add: str_nat_Suc_digits)
qed

text \<open>
  C2 as the specification words it has every id the smallest positive integer not yet
  used for the label of its pair, starting at 1. Labels that differ in case only share one
  pool of ids: after \<open>person/John\<close> the pairs \<open>Person/Mary\<close> and \<open>Person/Ann\<close> get
  the ids 2 and 3, though no id was used for the label \<open>Person\<close> before.
\<close>

theorem redact_ids_raw_label_counterexample:
  "fst (build_entity_id_map ascii_upper (new_redactor ''#{id}_{label}_REDACTED'') case_entities)
     = [((''person'', ''John''), ''1''), ((''Person'', ''Mary''), ''2''), ((''Person'', ''Ann''), ''3'')]
   \<and> map rd_redaction_id (rr_replacements (fst
        (redact ascii_upper format_default (new_redactor ''#{id}_{label}_REDACTED'') case_text case_entities
           True None False True))) = [''1'', ''2'', ''3'']
   \<and> \<not> smallest_unused
         (ids_before id
            (fst (build_entity_id_map ascii_upper (new_redactor ''#{id}_{label}_REDACTED'') case_entities)) 1)
         (snd (fst (build_entity_id_map ascii_upper (new_redactor ''#{id}_{label}_REDACTED'') case_entities) ! 1))"
proof -
  have "ids_before id [((''person'', ''John''), ''1''), ((''Person'', ''Mary''), ''2''), ((''Person'', ''Ann''), ''3'')] 1 = {}"
    by (simp add: ids_before_def ids_of_label_def)
  then show ?thesis
    by (simp add: case_id_map case_redact_ids not_smallest_unused_2)
qed


text \<open>
  C1 asks of \<open>batch_redact\<close> one id for every occurrence of a \<open>(label, text)\<close> pair
  across the batch. The method stores its global map in \<open>entity_id_map\<close>, which
  \<open>redact\<close> never reads: each call of \<open>redact\<close> builds a map of its own with fresh ids.
  For the span \<open>john\<close> in each of two texts the batch run hands out id 1, the first text
  gets id 2 and the second id 3.
\<close>

theorem batch_redact_ids_differ:
  "map_sum id (map (map rd_redaction_id \<circ> rr_replacements) \<circ> fst)
     (batch_redact ascii_upper format_default id (new_redactor ''#{id}_{label}_REDACTED'')
        [''John'', ''John''] [[john], [john]] True None False True)
   = Inr [[''2''], [''3'']]"
  by (simp add: batch_redact_def redact_def build_entity_id_map_def redact_entity_def
      sorted_reverse_def gen_simp new_redactor_def john_simps upper_person format_default_def
      find_free_id_free find_free_id_used str_nat_Suc_digits str_nat_digits Let_def)

section \<open>Chunking\<close>

subsection \<open>The word scanner\<close>

lemma scan_facts:
  assumes ne: "dropWhile isspace s \<noteq> []"
  defines "k \<equiv> length (takeWhile isspace s)"
  defines "n \<equiv> length (takeWhile (\<lambda>c. \<not> isspace c) (dropWhile isspace s))"
  shows "\<forall>i < k. isspace (s ! i)"
    and "0 < n" and "k + n \<le> length s"
    and "\<forall>i. k \<le> i \<and> i < k + n \<longrightarrow> \<not> isspace (s ! i)"
    and "k + n = length s \<or> isspace (s ! (k + n))"
    and "drop n (dropWhile isspace s) = drop (k + n) s"
proof -
  define w where "w = dropWhile isspace s"
  have w_drop: "w = drop k s" unfolding w_def k_def by (rule dropWhile_eq_drop)
  have len: "length w = length s - k" unfolding w_drop by simp
  have k_le: "k \<le> length s" unfolding k_def by (rule length_takeWhile_le)
  have n_le: "n \<le> length w" unfolding n_def w_def by (rule length_takeWhile_le)
  show "\<forall>i < k. isspace (s ! i)"
  proof (intro allI impI)
    fix i assume i: "i < k"
    then have "takeWhile isspace s ! i = s ! i" unfolding k_def by (rule takeWhile_nth)
    moreover have "takeWhile isspace s ! i \<in> set (takeWhile isspace s)"
      using i unfolding k_def by (rule nth_mem)
    ultimately show "isspace (s ! i)" using set_takeWhileD by metis
  qed
  from ne obtain c cs where c: "w = c # cs" unfolding w_def by (cases "dropWhile isspace s") auto
  have "\<not> isspace (hd w)" using ne hd_dropWhile [of isspace s] unfolding w_def by simp
  then have "\<not> isspace c" unfolding c by simp
  then show "0 < n" unfolding n_def w_def [symmetric] c by simp
  show kn: "k + n \<le> length s" using n_le len k_le by simp
  show "\<forall>i. k \<le> i \<and> i < k + n \<longrightarrow> \<not> isspace (s ! i)"
  proof (intro allI impI)
    fix i assume i: "k \<le> i \<and> i < k + n"
    then have j: "i - k < n" by arith
    then have "takeWhile (\<lambda>c. \<not> isspace c) w ! (i - k) = w ! (i - k)"
      unfolding n_def w_def by (rule takeWhile_nth)
    moreover have "takeWhile (\<lambda>c. \<not> isspace c) w ! (i - k) \<in> set (takeWhile (\<lambda>c. \<not> isspace c) w)"
      using j unfolding n_def w_def by (rule nth_mem)
    ultimately have "\<not> isspace (w ! (i - k))" using set_takeWhileD by metis
    moreover have "w ! (i - k) = s ! i" unfolding w_drop using i kn by simp
    ultimately show "\<not> isspace (s ! i)" by simp
  qed
  show "k + n = length s \<or> isspace (s ! (k + n))"
  proof (cases "n < length w")
    case True
    then have "\<not> \<not> isspace (w ! n)"
      unfolding n_def w_def by (rule nth_length_takeWhile)
    moreover have "w ! n = s ! (k + n)" unfolding w_drop using True len by simp
    ultimately show ?thesis by simp
  next
    case False
    with n_le len k_le show ?thesis by simp
  qed
  show "drop n (dropWhile isspace s) = drop (k + n) s"
    unfolding w_def [symmetric] w_drop by (simp add: add.commute)
qed

lemma word_spans_from_Nil:
  "dropWhile isspace s = [] \<Longrightarrow> word_spans_from pos s = []"
  by (subst word_spans_from.simps) simp

lemma word_spans_from_Cons:
  assumes "dropWhile isspace s \<noteq> []"
  shows "word_spans_from pos s =
     (pos + length (takeWhile isspace s),
      pos + length (takeWhile isspace s) + length (takeWhile (\<lambda>c. \<not> isspace c) (dropWhile isspace s)))
     # word_spans_from
         (pos + length (takeWhile isspace s) + length (takeWhile (\<lambda>c. \<not> isspace c) (dropWhile isspace s)))
         (drop (length (takeWhile isspace s) + length (takeWhile (\<lambda>c. \<not> isspace c) (dropWhile isspace s))) s)"
  using assms scan_facts(6) [OF assms]
  by (subst word_spans_from.simps) (simp add: Let_def)

text \<open>Spans lie within the scanned part, are not empty and follow one another.\<close>

lemma word_spans_from_bounds:
  "\<forall>p \<in> set (word_spans_from pos s). pos \<le> fst p \<and> fst p < snd p \<and> snd p \<le> pos + length s"
proof (induction "length s" arbitrary: pos s rule: less_induct)
  case less
  show ?case
  proof (cases "dropWhile isspace s = []")
    case True
    then show ?thesis by (simp add: word_spans_from_Nil)
  next
    case False
    define k where "k = length (takeWhile isspace s)"
    define n where "n = length (takeWhile (\<lambda>c. \<not> isspace c) (dropWhile isspace s))"
    note f = scan_facts [OF False, folded k_def n_def]
    have eq: "word_spans_from pos s = (pos + k, pos + k + n) # word_spans_from (pos + k + n) (drop (k + n) s)"
      unfolding k_def n_def by (rule word_spans_from_Cons [OF False])
    have "length (drop (k + n) s) < length s" using f(2,3) by simp
    from less [OF this, of "pos + k + n"]
    have ih: "\<forall>p \<in> set (word_spans_from (pos + k + n) (drop (k + n) s)).
               pos + k + n \<le> fst p \<and> fst p < snd p \<and> snd p \<le> pos + k + n + length (drop (k + n) s)" .
    have "pos + k + n + length (drop (k + n) s) = pos + length s" using f(3) by simp
    with ih have "\<forall>p \<in> set (word_spans_from (pos + k + n) (drop (k + n) s)).
               pos \<le> fst p \<and> fst p < snd p \<and> snd p \<le> pos + length s" by auto
    then show ?thesis unfolding eq using f(2,3) by simp
  qed
qed

lemma word_spans_from_sorted:
  "sorted_wrt (\<lambda>p q. snd p \<le> fst q) (word_spans_from pos s)"
proof (induction "length s" arbitrary: pos s rule: less_induct)
  case less
  show ?case
  proof (cases "dropWhile isspace s = []")
    case True
    then show ?thesis by (simp add: word_spans_from_Nil)
  next
    case False
    define k where "k = length (takeWhile isspace s)"
    define n where "n = length (takeWhile (\<lambda>c. \<not> isspace c) (dropWhile isspace s))"
    note f = scan_facts [OF False, folded k_def n_def]
    have eq: "word_spans_from pos s = (pos + k, pos + k + n) # word_spans_from (pos + k + n) (drop (k + n) s)"
      unfolding k_def n_def by (rule word_spans_from_Cons [OF False])
    have "length (drop (k + n) s) < length s" using f(2,3) by simp
    from less [OF this, of "pos + k + n"]
    have ih: "sorted_wrt (\<lambda>p q. snd p \<le> fst q) (word_spans_from (pos + k + n) (drop (k + n) s))" .
    have "\<forall>p \<in> set (word_spans_from (pos + k + n) (drop (k + n) s)). pos + k + n \<le> fst p"
      using word_spans_from_bounds [of "pos + k + n" "drop (k + n) s"] by blast
    with ih show ?thesis unfolding eq by simp
  qed
qed

text \<open>Every word of the text is found.\<close>

lemma word_spans_from_complete:
  "is_word s a b \<Longrightarrow> (pos + a, pos + b) \<in> set (word_spans_from pos s)"
proof (induction "length s" arbitrary: pos s a b rule: less_induct)
  case less
  from less.prems have ab: "a < b" "b \<le> length s"
    and ns: "\<And>i. a \<le> i \<Longrightarrow> i < b \<Longrightarrow> \<not> isspace (s ! i)"
    and left: "a = 0 \<or> isspace (s ! (a - 1))"
    and right: "b = length s \<or> isspace (s ! b)"
    by (simp_all add: is_word_def)
  have nsa: "\<not> isspace (s ! a)" using ns [of a] ab by simp
  have ne: "dropWhile isspace s \<noteq> []"
  proof
    assume "dropWhile isspace s = []"
    then have "\<forall>x \<in> set s. isspace x" by (simp add: dropWhile_eq_Nil_conv)
    moreover have "s ! a \<in> set s" using ab by simp
    ultimately show False using nsa by blast
  qed
  define k where "k = length (takeWhile isspace s)"
  define n where "n = length (takeWhile (\<lambda>c. \<not> isspace c) (dropWhile isspace s))"
  note f = scan_facts [OF ne, folded k_def n_def]
  have eq: "word_spans_from pos s = (pos + k, pos + k + n) # word_spans_from (pos + k + n) (drop (k + n) s)"
    unfolding k_def n_def by (rule word_spans_from_Cons [OF ne])
  have ka: "k \<le> a"
  proof (rule ccontr)
    assume "\<not> k \<le> a"
    then have "a < k" by simp
    with f(1) have "isspace (s ! a)" by blast
    with nsa show False by simp
  qed
  show ?case
  proof (cases "a < k + n")
    case True
    have a: "a = k"
    proof (rule ccontr)
      assume "a \<noteq> k"
      with ka have gt: "k < a" by simp
      then have "k \<le> a - 1 \<and> a - 1 < k + n" using True by arith
      with f(4) have "\<not> isspace (s ! (a - 1))" by blast
      with left gt show False by simp
    qed
    have b: "b = k + n"
    proof (rule ccontr)
      assume nb: "b \<noteq> k + n"
      show False
      proof (cases "b < k + n")
        case True
        then have "k \<le> b \<and> b < k + n" using ab a by simp
        with f(4) have "\<not> isspace (s ! b)" by blast
        moreover have "b \<noteq> length s" using True f(3) by simp
        ultimately show False using right by simp
      next
        case False
        with nb have gt: "k + n < b" by simp
        then have "k + n \<noteq> length s" using ab by simp
        with f(5) have "isspace (s ! (k + n))" by simp
        moreover have "\<not> isspace (s ! (k + n))" using ns [of "k + n"] gt a f(2) by simp
        ultimately show False by simp
      qed
    qed
    show ?thesis unfolding eq a b by (simp add: add.assoc)
  next
    case False
    then have ge: "k + n \<le> a" by simp
    define r where "r = drop (k + n) s"
    have lr: "length r < length s" unfolding r_def using f(2,3) by simp
    have nth_r: "\<And>i. k + n \<le> i \<Longrightarrow> i < length s \<Longrightarrow> r ! (i - (k + n)) = s ! i"
      unfolding r_def by simp
    have w: "is_word r (a - (k + n)) (b - (k + n))"
      unfolding is_word_def
    proof (intro conjI allI impI)
      show "a - (k + n) < b - (k + n)" using ab ge by simp
      show "b - (k + n) \<le> length r" unfolding r_def using ab by simp
    next
      fix i assume i: "a - (k + n) \<le> i \<and> i < b - (k + n)"
      then have "a \<le> i + (k + n)" "i + (k + n) < b" by arith+
      then have "\<not> isspace (s ! (i + (k + n)))" by (rule ns)
      moreover have "r ! i = s ! (i + (k + n))"
        using nth_r [of "i + (k + n)"] \<open>i + (k + n) < b\<close> ab by simp
      ultimately show "\<not> isspace (r ! i)" by simp
    next
      show "a - (k + n) = 0 \<or> isspace (r ! (a - (k + n) - 1))"
      proof (cases "a = k + n")
        case True
        then show ?thesis by simp
      next
        case False
        with ge have gt: "k + n < a" by simp
        with left have "isspace (s ! (a - 1))" by simp
        moreover have "r ! (a - 1 - (k + n)) = s ! (a - 1)"
          using nth_r [of "a - 1"] gt ab by simp
        moreover have "a - (k + n) - 1 = a - 1 - (k + n)" by simp
        ultimately show ?thesis by simp
      qed
    next
      show "b - (k + n) = length r \<or> isspace (r ! (b - (k + n)))"
      proof (cases "b = length s")
        case True
        then show ?thesis unfolding r_def by simp
      next
        case False
        with right have "isspace (s ! b)" by simp
        moreover have "r ! (b - (k + n)) = s ! b"
          using nth_r [of b] False ab ge by simp
        ultimately show ?thesis by simp
      qed
    qed
    from less.hyps [OF lr [unfolded r_def] w [unfolded r_def], of "pos + k + n"]
    have "(pos + k + n + (a - (k + n)), pos + k + n + (b - (k + n)))
            \<in> set (word_spans_from (pos + k + n) (drop (k + n) s))" .
    moreover have "pos + k + n + (a - (k + n)) = pos + a" using ge by simp
    moreover have "pos + k + n + (b - (k + n)) = pos + b" using ge ab by simp
    ultimately show ?thesis unfolding eq by simp
  qed
qed

subsection \<open>Groups of spans\<close>

lemma group_spans_Nil: "group_spans n [] = []"
  by (subst group_spans.simps) simp

lemma group_spans_Cons:
  "0 < n \<Longrightarrow> xs \<noteq> [] \<Longrightarrow> group_spans n xs = take n xs # group_spans n (drop n xs)"
  by (subst group_spans.simps) simp

lemma group_spans_concat: "0 < n \<Longrightarrow> concat (group_spans n xs) = xs"
proof (induction "length xs" arbitrary: xs rule: less_induct)
  case less
  show ?case
  proof (cases "xs = []")
    case True
    then show ?thesis by (simp add: group_spans_Nil)
  next
    case False
    with less.prems have "length (drop n xs) < length xs" by simp
    from less.hyps [OF this less.prems] have "concat (group_spans n (drop n xs)) = drop n xs" .
    with False less.prems show ?thesis by (simp add: group_spans_Cons)
  qed
qed

lemma group_spans_nonempty: "0 < n \<Longrightarrow> g \<in> set (group_spans n xs) \<Longrightarrow> g \<noteq> []"
proof (induction "length xs" arbitrary: xs rule: less_induct)
  case less
  show ?case
  proof (cases "xs = []")
    case True
    with less.prems show ?thesis by (simp add: group_spans_Nil)
  next
    case False
    with less.prems have l: "length (drop n xs) < length xs" by simp
    from less.prems False have "g = take n xs \<or> g \<in> set (group_spans n (drop n xs))"
      by (simp add: group_spans_Cons)
    then show ?thesis
    proof
      assume "g = take n xs"
      with False less.prems show ?thesis by simp
    next
      assume "g \<in> set (group_spans n (drop n xs))"
      from less.hyps [OF l less.prems(1) this] show ?thesis .
    qed
  qed
qed

lemma group_spans_subset: "g \<in> set (group_spans n xs) \<Longrightarrow> set g \<subseteq> set xs"
proof (induction "length xs" arbitrary: xs rule: less_induct)
  case less
  show ?case
  proof (cases "xs = [] \<or> n = 0")
    case True
    with less.prems show ?thesis by (subst (asm) group_spans.simps) simp
  next
    case False
    then have l: "length (drop n xs) < length xs" by simp
    from less.prems False have "g = take n xs \<or> g \<in> set (group_spans n (drop n xs))"
      by (simp add: group_spans_Cons)
    then show ?thesis
    proof
      assume "g = take n xs"
      then show ?thesis by (simp add: set_take_subset)
    next
      assume "g \<in> set (group_spans n (drop n xs))"
      from less.hyps [OF l this] have "set g \<subseteq> set (drop n xs)" .
      also have "\<dots> \<subseteq> set xs" by (rule set_drop_subset)
      finally show ?thesis .
    qed
  qed
qed

lemma group_spans_sorted:
  assumes "0 < n" "sorted_wrt R xs"
  shows "sorted_wrt (\<lambda>g h. \<forall>x \<in> set g. \<forall>y \<in> set h. R x y) (group_spans n xs)
       \<and> (\<forall>g \<in> set (group_spans n xs). sorted_wrt R g)"
  using assms(2)
proof (induction "length xs" arbitrary: xs rule: less_induct)
  case less
  show ?case
  proof (cases "xs = []")
    case True
    then show ?thesis by (simp add: group_spans_Nil)
  next
    case False
    with assms(1) have l: "length (drop n xs) < length xs" by simp
    have "sorted_wrt R (take n xs @ drop n xs)" using less.prems by simp
    then have t: "sorted_wrt R (take n xs)" and d: "sorted_wrt R (drop n xs)"
      and c: "\<forall>x \<in> set (take n xs). \<forall>y \<in> set (drop n xs). R x y"
      unfolding sorted_wrt_append by simp_all
    from less.hyps [OF l d]
    have ih1: "sorted_wrt (\<lambda>g h. \<forall>x \<in> set g. \<forall>y \<in> set h. R x y) (group_spans n (drop n xs))"
      and ih2: "\<forall>g \<in> set (group_spans n (drop n xs)). sorted_wrt R g" by simp_all
    have "\<forall>h \<in> set (group_spans n (drop n xs)). \<forall>x \<in> set (take n xs). \<forall>y \<in> set h. R x y"
    proof (intro ballI)
      fix h x y
      assume "h \<in> set (group_spans n (drop n xs))" "x \<in> set (take n xs)" "y \<in> set h"
      then have "y \<in> set (drop n xs)" using group_spans_subset by blast
      with c \<open>x \<in> set (take n xs)\<close> show "R x y" by blast
    qed
    with ih1 ih2 t show ?thesis
      by (simp add: group_spans_Cons [OF assms(1) False])
  qed
qed

lemma chain_hd_last:
  fixes g :: "(nat \<times> nat) list"
  assumes s: "sorted_wrt (\<lambda>p q. snd p \<le> fst q) g"
    and ne: "\<forall>p \<in> set g. fst p < snd p"
    and p: "p \<in> set g"
  shows "fst (hd g) \<le> fst p \<and> snd p \<le> snd (last g)"
proof -
  from p obtain i where i: "i < length g" "g ! i = p" by (auto simp: in_set_conv_nth)
  then have g: "g \<noteq> []" by auto
  have h: "hd g = g ! 0" using g by (simp add: hd_conv_nth)
  have l: "last g = g ! (length g - 1)" using g by (simp add: last_conv_nth)
  have "fst (g ! 0) \<le> fst (g ! i)"
  proof (cases "i = 0")
    case True then show ?thesis by simp
  next
    case False
    then have "0 < i" by simp
    with s i(1) have "snd (g ! 0) \<le> fst (g ! i)" by (simp add: sorted_wrt_iff_nth_less)
    moreover have "fst (g ! 0) < snd (g ! 0)" using ne g by simp
    ultimately show ?thesis by simp
  qed
  moreover have "snd (g ! i) \<le> snd (g ! (length g - 1))"
  proof (cases "i = length g - 1")
    case True then show ?thesis by simp
  next
    case False
    with i(1) have "i < length g - 1" by simp
    with s have "snd (g ! i) \<le> fst (g ! (length g - 1))"
      using g by (simp add: sorted_wrt_iff_nth_less)
    moreover have "fst (g ! (length g - 1)) < snd (g ! (length g - 1))" using ne g by simp
    ultimately show ?thesis by simp
  qed
  ultimately show ?thesis unfolding h l i(2) by simp
qed

lemma py_slice_nat:
  assumes "a \<le> b" "b \<le> length s"
  shows "py_slice s (int a) (int b) = take (b - a) (drop a s)"
    and "length (py_slice s (int a) (int b)) = b - a"
  using assms by (simp_all add: py_slice_def slice_bound_def Let_def)

subsection \<open>Chunks\<close>

lemma word_spans_bounds:
  "\<forall>p \<in> set (word_spans text). fst p < snd p \<and> snd p \<le> length text"
  using word_spans_from_bounds [of 0 "text"] by (simp add: word_spans_def)

lemma word_spans_sorted:
  "sorted_wrt (\<lambda>p q. snd p \<le> fst q) (word_spans text)"
  using word_spans_from_sorted [of 0 "text"] by (simp add: word_spans_def)

lemma nonblank_facts:
  assumes "\<exists>c \<in> set text. \<not> isspace c"
  shows "text \<noteq> []" and "strip text \<noteq> []" and "word_spans text \<noteq> []"
proof -
  from assms show "text \<noteq> []" by auto
  have d: "dropWhile isspace text \<noteq> []"
    using assms by simp
  then have "\<not> isspace (hd (dropWhile isspace text))" by (rule hd_dropWhile)
  moreover have "hd (dropWhile isspace text) \<in> set (rev (dropWhile isspace text))"
    using d by simp
  ultimately have "dropWhile isspace (rev (dropWhile isspace text)) \<noteq> []"
    by auto
  then show "strip text \<noteq> []" by (simp add: strip_def)
  show "word_spans text \<noteq> []"
    unfolding word_spans_def by (simp add: word_spans_from_Cons [OF d])
qed

lemma blank_facts:
  assumes "\<forall>c \<in> set text. isspace c"
  shows "chunk_text text chunk_size = []"
proof -
  have d: "dropWhile isspace text = []" using assms by simp
  have "strip text = []" unfolding strip_def d by simp
  then show ?thesis by (simp add: chunk_text_def)
qed

lemma eff_size_pos: "0 < eff_size chunk_size"
  by (simp add: eff_size_def)

lemma chunk_text_eq:
  "chunk_text text chunk_size =
     (if \<exists>c \<in> set text. \<not> isspace c
      then map (chunk_of text) (group_spans (eff_size chunk_size) (word_spans text)) else [])"
proof (cases "\<exists>c \<in> set text. \<not> isspace c")
  case True
  from nonblank_facts [OF True] True show ?thesis
    by (simp add: chunk_text_def Let_def chunk_of_def eff_size_def)
next
  case False
  then have "\<forall>c \<in> set text. isspace c" by simp
  from blank_facts [OF this] False show ?thesis by simp
qed

lemma group_facts:
  assumes g: "g \<in> set (group_spans (eff_size chunk_size) (word_spans text))"
  shows "g \<noteq> []"
    and "\<forall>p \<in> set g. fst p < snd p \<and> snd p \<le> length text"
    and "sorted_wrt (\<lambda>p q. snd p \<le> fst q) g"
    and "fst (hd g) < snd (last g)" and "snd (last g) \<le> length text"
    and "\<forall>p \<in> set g. fst (hd g) \<le> fst p \<and> snd p \<le> snd (last g)"
proof -
  show ne: "g \<noteq> []" by (rule group_spans_nonempty [OF eff_size_pos g])
  have sub: "set g \<subseteq> set (word_spans text)" by (rule group_spans_subset [OF g])
  with word_spans_bounds show b: "\<forall>p \<in> set g. fst p < snd p \<and> snd p \<le> length text" by blast
  from group_spans_sorted [OF eff_size_pos word_spans_sorted] g
  show s: "sorted_wrt (\<lambda>p q. snd p \<le> fst q) g" by blast
  from b have b1: "\<forall>p \<in> set g. fst p < snd p" by blast
  show c: "\<forall>p \<in> set g. fst (hd g) \<le> fst p \<and> snd p \<le> snd (last g)"
    using chain_hd_last [OF s b1] by blast
  have h: "hd g \<in> set g" and l: "last g \<in> set g" using ne by simp_all
  from c h have "snd (hd g) \<le> snd (last g)" by blast
  moreover from b h have "fst (hd g) < snd (hd g)" by blast
  ultimately show "fst (hd g) < snd (last g)" by simp
  from b l show "snd (last g) \<le> length text" by blast
qed

lemma chunk_of_facts:
  assumes g: "g \<in> set (group_spans (eff_size chunk_size) (word_spans text))"
  shows "snd (chunk_of text g) = int (fst (hd g))"
    and "snd (chunk_of text g) + int (length (fst (chunk_of text g))) = int (snd (last g))"
    and "py_slice text (snd (chunk_of text g))
           (snd (chunk_of text g) + int (length (fst (chunk_of text g)))) = fst (chunk_of text g)"
proof -
  note f = group_facts [OF g]
  from f(4) have le: "fst (hd g) \<le> snd (last g)" by simp
  show 1: "snd (chunk_of text g) = int (fst (hd g))" by (simp add: chunk_of_def)
  have len: "length (fst (chunk_of text g)) = snd (last g) - fst (hd g)"
    unfolding chunk_of_def fst_conv by (rule py_slice_nat(2) [OF le f(5)])
  show 2: "snd (chunk_of text g) + int (length (fst (chunk_of text g))) = int (snd (last g))"
    unfolding 1 len using le by simp
  show "py_slice text (snd (chunk_of text g))
           (snd (chunk_of text g) + int (length (fst (chunk_of text g)))) = fst (chunk_of text g)"
    unfolding 2 unfolding chunk_of_def by simp
qed

text \<open>
  C4, as the code has it. For every text and every chunk size (a size that is not positive
  is replaced by 600): each chunk is the text between its offset and its offset plus its
  length; the offsets ascend strictly; every word of the text, a maximal run of characters
  that are not whitespace, lies within one chunk. \<open>validate_chunks\<close> accepts the result
  when the text has a character that is not whitespace; for a blank text the result is
  the empty list, which \<open>validate_chunks\<close> rejects.
\<close>

theorem chunk_text_round_trip:
  "(\<forall>p \<in> set (chunk_text text chunk_size).
       py_slice text (snd p) (snd p + int (length (fst p))) = fst p)
   \<and> ((\<exists>c \<in> set text. \<not> isspace c) \<longrightarrow> validate_chunks (chunk_text text chunk_size) text)
   \<and> ((\<forall>c \<in> set text. isspace c) \<longrightarrow>
         chunk_text text chunk_size = [] \<and> \<not> validate_chunks (chunk_text text chunk_size) text)
   \<and> sorted_wrt (<) (map snd (chunk_text text chunk_size))
   \<and> (\<forall>s e. is_word text s e \<longrightarrow>
         (\<exists>p \<in> set (chunk_text text chunk_size).
            snd p \<le> int s \<and> int e \<le> snd p + int (length (fst p))))"
proof (cases "\<exists>c \<in> set text. \<not> isspace c")
  case False
  then have blank: "\<forall>c \<in> set text. isspace c" by simp
  have e: "chunk_text text chunk_size = []" by (rule blank_facts [OF blank])
  have nw: "\<not> is_word text s e" for s e
  proof
    assume "is_word text s e"
    then have "s < length text" "\<not> isspace (text ! s)" by (auto simp: is_word_def)
    with blank show False using nth_mem by blast
  qed
  from False e nw show ?thesis by (simp add: validate_chunks_def)
next
  case True
  define groups where "groups = group_spans (eff_size chunk_size) (word_spans text)"
  have ct: "chunk_text text chunk_size = map (chunk_of text) groups"
    using True by (simp add: chunk_text_eq groups_def)
  note nb = nonblank_facts [OF True]
  have A: "\<forall>p \<in> set (chunk_text text chunk_size).
       py_slice text (snd p) (snd p + int (length (fst p))) = fst p"
    unfolding ct groups_def using chunk_of_facts(3) by auto
  have ne: "groups \<noteq> []"
    unfolding groups_def using nb(3) by (simp add: group_spans_Cons [OF eff_size_pos])
  have B: "validate_chunks (chunk_text text chunk_size) text"
  proof -
    have "list_all (\<lambda>(chunk_str, offset).
                       \<not> (offset < 0 \<or> offset \<ge> int (length text))
                       \<and> \<not> (offset + int (length chunk_str) > int (length text))
                       \<and> py_slice text offset (offset + int (length chunk_str)) = chunk_str)
                    (map (chunk_of text) groups)"
      unfolding list_all_iff
    proof
      fix p assume "p \<in> set (map (chunk_of text) groups)"
      then obtain g where g: "g \<in> set groups" and p: "p = chunk_of text g" by auto
      note gf = group_facts [OF g [unfolded groups_def]]
      note cf = chunk_of_facts [OF g [unfolded groups_def]]
      have "0 \<le> snd p" "snd p < int (length text)"
        "snd p + int (length (fst p)) \<le> int (length text)"
        "py_slice text (snd p) (snd p + int (length (fst p))) = fst p"
        unfolding p using cf gf(4,5) by simp_all
      then show "case p of (chunk_str, offset) \<Rightarrow>
                       \<not> (offset < 0 \<or> offset \<ge> int (length text))
                       \<and> \<not> (offset + int (length chunk_str) > int (length text))
                       \<and> py_slice text offset (offset + int (length chunk_str)) = chunk_str"
        by (cases p) simp
    qed
    with ne nb(1) show ?thesis unfolding ct by (simp add: validate_chunks_def)
  qed
  have C: "sorted_wrt (<) (map snd (chunk_text text chunk_size))"
  proof -
    from group_spans_sorted [OF eff_size_pos word_spans_sorted, of chunk_size "text"]
    have gs: "sorted_wrt (\<lambda>g h. \<forall>x \<in> set g. \<forall>y \<in> set h. snd x \<le> fst y) groups"
      unfolding groups_def by blast
    have "sorted_wrt (\<lambda>g h. snd (chunk_of text g) < snd (chunk_of text h)) groups"
    proof (rule sorted_wrt_mono_rel [OF _ gs])
      fix g h
      assume g: "g \<in> set groups" and h: "h \<in> set groups"
        and r: "\<forall>x \<in> set g. \<forall>y \<in> set h. snd x \<le> fst y"
      note gf = group_facts [OF g [unfolded groups_def]]
      note hf = group_facts [OF h [unfolded groups_def]]
      have "hd g \<in> set g" "hd h \<in> set h" using gf(1) hf(1) by simp_all
      with r have "snd (hd g) \<le> fst (hd h)" by blast
      moreover have "fst (hd g) < snd (hd g)" using gf(2) \<open>hd g \<in> set g\<close> by blast
      ultimately show "snd (chunk_of text g) < snd (chunk_of text h)"
        by (simp add: chunk_of_def)
    qed
    then show ?thesis unfolding ct by (simp add: sorted_wrt_map)
  qed
  have D: "\<forall>s e. is_word text s e \<longrightarrow>
         (\<exists>p \<in> set (chunk_text text chunk_size).
            snd p \<le> int s \<and> int e \<le> snd p + int (length (fst p)))"
  proof (intro allI impI)
    fix s e assume "is_word text s e"
    from word_spans_from_complete [OF this, of 0]
    have "(s, e) \<in> set (word_spans text)" by (simp add: word_spans_def)
    also have "word_spans text = concat groups"
      unfolding groups_def by (rule group_spans_concat [OF eff_size_pos, symmetric])
    finally obtain g where g: "g \<in> set groups" and m: "(s, e) \<in> set g" by auto
    note gf = group_facts [OF g [unfolded groups_def]]
    note cf = chunk_of_facts [OF g [unfolded groups_def]]
    from gf(6) m have "fst (hd g) \<le> s \<and> e \<le> snd (last g)" by force
    then have "int (fst (hd g)) \<le> int s \<and> int e \<le> int (snd (last g))" by simp
    then have "snd (chunk_of text g) \<le> int s
        \<and> int e \<le> snd (chunk_of text g) + int (length (fst (chunk_of text g)))"
      using cf(1) cf(2) by simp
    moreover have "chunk_of text g \<in> set (chunk_text text chunk_size)"
      unfolding ct using g by simp
    ultimately show "\<exists>p \<in> set (chunk_text text chunk_size).
            snd p \<le> int s \<and> int e \<le> snd p + int (length (fst p))" by blast
  qed
  from True A B C D show ?thesis by blast
qed

text \<open>
  C4 as the specification words it promises that \<open>validate_chunks\<close> accepts the chunks
  of every text. For a text of two spaces there are no chunks and \<open>validate_chunks\<close>
  answers \<open>False\<close>.
\<close>

theorem validate_chunks_blank_counterexample:
  "chunk_text ''  '' 5 = [] \<and> validate_chunks (chunk_text ''  '' 5) ''  '' = False"
  by (simp add: chunk_text_def strip_def isspace_def validate_chunks_def)

theorem chunk_text_round_trip_witness:
  "CHR ''a'' \<in> set sample_text \<and> isspace (CHR ''a'') = False
   \<and> validate_chunks (chunk_text sample_text 2) sample_text
   \<and> sorted_wrt (<) (map snd (chunk_text sample_text 2))"
proof -
  have a: "CHR ''a'' \<in> set sample_text" by (simp add: sample_text_def)
  have b: "isspace (CHR ''a'') = False" by (simp add: isspace_def)
  from a b have h: "\<exists>c \<in> set sample_text. \<not> isspace c" by blast
  note t = chunk_text_round_trip [of sample_text 2]
  from t h have v: "validate_chunks (chunk_text sample_text 2) sample_text" by blast
  from t have s: "sorted_wrt (<) (map snd (chunk_text sample_text 2))" by blast
  from a b v s show ?thesis by blast
qed

section \<open>Parallel dispatch\<close>

lemma chunk_text_chunk_facts:
  assumes "p \<in> set (chunk_text text chunk_size)"
  shows "0 \<le> snd p" and "snd p + int (length (fst p)) \<le> int (length text)"
    and "py_slice text (snd p) (snd p + int (length (fst p))) = fst p"
proof -
  from assms have nb: "\<exists>c \<in> set text. \<not> isspace c"
    by (auto simp: chunk_text_eq split: if_splits)
  with assms obtain g where g: "g \<in> set (group_spans (eff_size chunk_size) (word_spans text))"
    and p: "p = chunk_of text g" by (auto simp: chunk_text_eq)
  note gf = group_facts [OF g]
  note cf = chunk_of_facts [OF g]
  show "0 \<le> snd p" unfolding p cf(1) by simp
  show "snd p + int (length (fst p)) \<le> int (length text)" unfolding p cf(2) using gf(5) by simp
  show "py_slice text (snd p) (snd p + int (length (fst p))) = fst p" unfolding p by (rule cf(3))
qed

lemma py_slice_shift:
  assumes off: "0 \<le> off" and fit: "off + int (length c) \<le> int (length full)"
    and c: "py_slice full off (off + int (length c)) = c"
    and a: "0 \<le> a" and ab: "a \<le> b" and b: "b \<le> int (length c)"
  shows "py_slice full (a + off) (b + off) = py_slice c a b"
proof -
  define x y z where "x = nat a" and "y = nat b" and "z = nat off"
  have ia: "a = int x" and ib: "b = int y" and io: "off = int z"
    using a ab off by (simp_all add: x_def y_def z_def)
  have xy: "x \<le> y" and yl: "y \<le> length c" and zl: "z + length c \<le> length full"
    using ab b fit a off by (simp_all add: x_def y_def z_def)
  have "py_slice full (int z) (int (z + length c)) = take (z + length c - z) (drop z full)"
    by (rule py_slice_nat(1)) (use zl in simp_all)
  with c have cc: "c = take (length c) (drop z full)" by (simp add: io)
  have "py_slice full (a + off) (b + off) = py_slice full (int (x + z)) (int (y + z))"
    by (simp add: ia ib io)
  also have "\<dots> = take (y + z - (x + z)) (drop (x + z) full)"
    by (rule py_slice_nat(1)) (use xy yl zl in simp_all)
  also have "\<dots> = take (y - x) (drop x (drop z full))" by (simp add: add.commute)
  finally have l: "py_slice full (a + off) (b + off) = take (y - x) (drop x (drop z full))" .
  have "py_slice c a b = take (y - x) (drop x c)"
    unfolding ia ib by (rule py_slice_nat(1) [OF xy yl])
  also have "\<dots> = take (y - x) (drop x (take (length c) (drop z full)))"
    using cc by simp
  also have "\<dots> = take (y - x) (take (length c - x) (drop x (drop z full)))"
    by (simp only: drop_take)
  also have "\<dots> = take (y - x) (drop x (drop z full))"
    using yl by (simp add: min_def)
  finally show ?thesis using l by simp
qed

text \<open>
  C5. Offset fidelity of parallel dispatch. Let the labeler return, for every chunk, only
  spans with \<open>0 \<le> start < end \<le> len(chunk)\<close> whose text is \<^verbatim>\<open>chunk[start:end]\<close>.
  Then every span that \<open>extract_entities_in_parallel\<close> returns, its start and end
  moved by the offset of its chunk, has as its text the slice of the full text between
  them. This holds whatever the order in which the tasks finish.
\<close>

theorem parallel_offset_fidelity:
  assumes labeler: "\<forall>chunk categories raw. predict chunk categories = Some raw \<longrightarrow>
             (\<forall>e \<in> set raw. 0 \<le> e_start e \<and> e_start e < e_end e \<and> e_end e \<le> int (length chunk)
                          \<and> e_text e = py_slice chunk (e_start e) (e_end e))"
    and order: "set completion_order \<subseteq> {..< length (chunk_text full_text chunk_size)}"
  shows "\<forall>e \<in> set (extract_entities_in_parallel completion_order full_text predict chunk_size
                       max_workers categories).
           py_slice full_text (e_start e) (e_end e) = e_text e"
proof
  fix e
  assume m: "e \<in> set (extract_entities_in_parallel completion_order full_text predict chunk_size
                       max_workers categories)"
  define chunks where "chunks = chunk_text full_text chunk_size"
  define futures where "futures = map (\<lambda>(chunk_str, offset).
                               extract_entities_for_chunk chunk_str offset predict categories) chunks"
  from m have "e \<in> set (sort_key e_start (concat (map (\<lambda>i. futures ! i) completion_order)))"
    by (simp add: extract_entities_in_parallel_def Let_def chunks_def futures_def split: if_splits)
  then obtain i where i: "i \<in> set completion_order" and e: "e \<in> set (futures ! i)" by auto
  from i order have il: "i < length chunks" by (auto simp: chunks_def)
  define p where "p = chunks ! i"
  have pm: "p \<in> set (chunk_text full_text chunk_size)"
    using il by (simp add: p_def chunks_def)
  have "futures ! i = extract_entities_for_chunk (fst p) (snd p) predict categories"
    using il by (simp add: futures_def p_def case_prod_beta)
  with e obtain raw r where raw: "predict (fst p) categories = Some raw" and r: "r \<in> set raw"
    and er: "e = r\<lparr>e_start := e_start r + snd p, e_end := e_end r + snd p\<rparr>"
    by (auto simp: extract_entities_for_chunk_def split: option.splits)
  from labeler raw r have rf: "0 \<le> e_start r" "e_start r < e_end r" "e_end r \<le> int (length (fst p))"
    "e_text r = py_slice (fst p) (e_start r) (e_end r)" by blast+
  note cf = chunk_text_chunk_facts [OF pm]
  have "py_slice full_text (e_start r + snd p) (e_end r + snd p) = py_slice (fst p) (e_start r) (e_end r)"
    by (rule py_slice_shift [OF cf(1) cf(2) cf(3) rf(1) _ rf(3)]) (use rf(2) in simp)
  then show "py_slice full_text (e_start e) (e_end e) = e_text e"
    unfolding er using rf(4) by simp
qed

lemma isspace_simps:
  "isspace CHR '' '' = True" "isspace CHR ''a'' = False" "isspace CHR ''b'' = False"
  "isspace CHR ''c'' = False" "isspace CHR ''d'' = False" "isspace CHR ''e'' = False"
  "isspace CHR ''f'' = False"
  by (simp_all add: isspace_def)

lemma sample_spans: "word_spans sample_text = [(2, 4), (6, 9), (10, 11)]"
  by (simp add: word_spans_def sample_text_def word_spans_from_Cons word_spans_from_Nil isspace_simps)

lemma sample_groups: "group_spans 2 [(2, 4), (6, 9), (10, 11 :: nat)] = [[(2 :: nat, 4), (6, 9)], [(10, 11)]]"
  by (simp add: group_spans_Cons group_spans_Nil)

lemma sample_chunks: "chunk_text sample_text 2 = [(''ab  cde'', 2), (''f'', 10)]"
proof -
  have "\<exists>c \<in> set sample_text. \<not> isspace c"
    by (rule bexI [of _ "CHR ''a''"]) (simp_all add: sample_text_def isspace_simps)
  then have "chunk_text sample_text 2 = map (chunk_of sample_text) (group_spans 2 (word_spans sample_text))"
    by (simp add: chunk_text_eq eff_size_def)
  also have "\<dots> = [(''ab  cde'', 2), (''f'', 10)]"
    unfolding sample_spans sample_groups
    by (simp add: chunk_of_def sample_text_def py_slice_def slice_bound_def)
  finally show ?thesis .
qed

lemma sample_parallel:
  "extract_entities_in_parallel [1, 0] sample_text first_two 2 4 None
     = [\<lparr>e_label = ''word'', e_text = ''ab'', e_start = 2, e_end = 4, e_score = 1, e_count = None\<rparr>]"
proof -
  have st: "strip sample_text \<noteq> []"
    by (simp add: strip_def sample_text_def isspace_simps)
  have ne: "sample_text \<noteq> []" by (simp add: sample_text_def)
  show ?thesis
    by (simp add: extract_entities_in_parallel_def sample_chunks extract_entities_for_chunk_def
        first_two_def st ne Let_def)
qed

theorem parallel_offset_fidelity_witness:
  "first_two ''ab  cde'' None
     = Some [\<lparr>e_label = ''word'', e_text = ''ab'', e_start = 0, e_end = 2, e_score = 1, e_count = None\<rparr>]
   \<and> extract_entities_in_parallel [1, 0] sample_text first_two 2 4 None
     = [\<lparr>e_label = ''word'', e_text = ''ab'', e_start = 2, e_end = 4, e_score = 1, e_count = None\<rparr>]
   \<and> py_slice sample_text 2 4 = ''ab''"
proof -
  have labeler: "\<forall>chunk categories raw. first_two chunk categories = Some raw \<longrightarrow>
             (\<forall>e \<in> set raw. 0 \<le> e_start e \<and> e_start e < e_end e \<and> e_end e \<le> int (length chunk)
                          \<and> e_text e = py_slice chunk (e_start e) (e_end e))"
    by (auto simp: first_two_def py_slice_def slice_bound_def)
  have order: "set [1, 0] \<subseteq> {..< length (chunk_text sample_text 2)}"
    by (simp add: sample_chunks)
  define out where "out = extract_entities_in_parallel [1, 0] sample_text first_two 2 4 None"
  define e where "e = \<lparr>e_label = ''word'', e_text = ''ab'', e_start = 2, e_end = 4, e_score = 1, e_count = None\<rparr>"
  have o: "out = [e]" unfolding out_def e_def by (rule sample_parallel)
  then have "e \<in> set out" by simp
  with parallel_offset_fidelity [OF labeler order, of 4 None]
  have "py_slice sample_text (e_start e) (e_end e) = e_text e" unfolding out_def by blast
  then have s: "py_slice sample_text 2 4 = ''ab''" by (simp add: e_def)
  have f: "first_two ''ab  cde'' None
     = Some [\<lparr>e_label = ''word'', e_text = ''ab'', e_start = 0, e_end = 2, e_score = 1, e_count = None\<rparr>]"
    by (simp add: first_two_def)
  from f o s show ?thesis unfolding out_def e_def by blast
qed

section \<open>The default replacement strategy\<close>






























section \<open>Replacement\<close>

lemma map_of_dict_set:
  "map_of (dict_set d k v) k' = (if k' = k then Some v else map_of d k')"
  by (induction d) auto

lemma try_strategies_Some:
  "try_strategies lower upper self entity label names r = (Some (rep, name), r1)
     \<Longrightarrow> rep \<noteq> [] \<and> rep \<noteq> e_text entity"
proof (induction names arbitrary: r)
  case Nil
  then show ?case by simp
next
  case (Cons n names)
  show ?case
  proof (cases "strategies_get lower upper self n")
    case None
    with Cons.prems have "try_strategies lower upper self entity label names r = (Some (rep, name), r1)"
      by simp
    then show ?thesis by (rule Cons.IH)
  next
    case (Some st)
    show ?thesis
    proof (cases "s_can_handle st label")
      case False
      with Some Cons.prems
      have "try_strategies lower upper self entity label names r = (Some (rep, name), r1)" by simp
      then show ?thesis by (rule Cons.IH)
    next
      case True
      obtain res r2 where g: "s_get_replacement st entity r = (res, r2)"
        by (cases "s_get_replacement st entity r")
      show ?thesis
      proof (cases res)
        case None
        with Some True g Cons.prems
        have "try_strategies lower upper self entity label names r2 = (Some (rep, name), r1)" by simp
        then show ?thesis by (rule Cons.IH)
      next
        case (Some x)
        show ?thesis
        proof (cases "x \<noteq> [] \<and> x \<noteq> e_text entity")
          case True
          with \<open>strategies_get lower upper self n = Some st\<close> \<open>s_can_handle st label\<close> g Some Cons.prems
          have "rep = x" by simp
          with True show ?thesis by simp
        next
          case False
          with \<open>strategies_get lower upper self n = Some st\<close> \<open>s_can_handle st label\<close> g Some Cons.prems
          have "try_strategies lower upper self entity label names r2 = (Some (rep, name), r1)"
            by auto
          then show ?thesis by (rule Cons.IH)
        qed
      qed
    qed
  qed
qed

text \<open>With consistency on, the call leaves its replacement in the cache and keeps every entry.\<close>

lemma get_replacement_cache:
  assumes g: "replacer_get_replacement lower upper self entity True custom r = ((rep, su), self', r')"
  shows "(\<exists>s. map_of (replacement_cache self') (lower (e_label entity), e_text entity) = Some (rep, s))
       \<and> (\<forall>k v. map_of (replacement_cache self) k = Some v
                 \<longrightarrow> map_of (replacement_cache self') k = Some v)"
proof (cases "map_of (replacement_cache self) (lower (e_label entity), e_text entity)")
  case (Some c)
  obtain cr cs where c: "c = (cr, cs)" by (cases c)
  from g Some c have "rep = cr" "self' = self"
    by (simp_all add: replacer_get_replacement_def Let_def)
  with Some c show ?thesis by simp
next
  case None
  define names where "names =
     (case custom of
        Some c \<Rightarrow> if c \<noteq> [] then [c]
                  else (case map_of strategy_mapping (lower (e_label entity)) of
                          Some l \<Rightarrow> l | None \<Rightarrow> [''faker'', ''default''])
      | None \<Rightarrow> (case map_of strategy_mapping (lower (e_label entity)) of
                   Some l \<Rightarrow> l | None \<Rightarrow> [''faker'', ''default'']))"
  obtain res r1 where t: "try_strategies lower upper self entity (lower (e_label entity)) names r = (res, r1)"
    by (cases "try_strategies lower upper self entity (lower (e_label entity)) names r")
  obtain d r2 where dg: "default_get_replacement lower upper entity r1 = (d, r2)"
    by (cases "default_get_replacement lower upper entity r1")
  have "\<exists>s. self' = self\<lparr>replacement_cache :=
             dict_set (replacement_cache self) (lower (e_label entity), e_text entity) (rep, s)\<rparr>"
  proof (cases res)
    case None
    with g \<open>map_of (replacement_cache self) (lower (e_label entity), e_text entity) = None\<close> t dg
    show ?thesis
      by (auto simp: replacer_get_replacement_def Let_def names_def [symmetric])
  next
    case (Some p)
    obtain x n where p: "p = (x, n)" by (cases p)
    with Some g \<open>map_of (replacement_cache self) (lower (e_label entity), e_text entity) = None\<close> t
    show ?thesis
      by (auto simp: replacer_get_replacement_def Let_def names_def [symmetric])
  qed
  then obtain s where s: "self' = self\<lparr>replacement_cache :=
             dict_set (replacement_cache self) (lower (e_label entity), e_text entity) (rep, s)\<rparr>"
    by blast
  have 1: "map_of (replacement_cache self') (lower (e_label entity), e_text entity) = Some (rep, s)"
    by (simp add: s map_of_dict_set)
  have 2: "\<forall>k v. map_of (replacement_cache self) k = Some v
                 \<longrightarrow> map_of (replacement_cache self') k = Some v"
    using None by (auto simp: s map_of_dict_set)
  from 1 2 show ?thesis by blast
qed

lemma replace_entity_cached:
  assumes step: "replace_entity lower upper True strategies entity (self, r, t, ds, m) = (self', r', t', ds', m')"
    and inv: "\<forall>d \<in> set ds. cached_detail self d"
  shows "\<forall>d \<in> set ds'. cached_detail self' d"
proof -
  obtain rep su s1 r1
    where g: "replacer_get_replacement lower upper self entity True
                (map_of strategies (lower (e_label entity))) r = ((rep, su), s1, r1)"
    by (metis prod.exhaust)
  note c = get_replacement_cache [OF g]
  from step g have s1: "self' = s1" by (simp add: replace_entity_def Let_def split: if_splits)
  have old: "\<forall>d \<in> set ds. cached_detail self' d"
    using inv c unfolding cached_detail_def s1 by blast
  show ?thesis
  proof (cases "rep \<noteq> [] \<and> rep \<noteq> e_text entity")
    case False
    with step g have "ds' = ds" by (auto simp: replace_entity_def Let_def)
    with old show ?thesis by simp
  next
    case True
    with step g have "ds' = ds @ [\<lparr>rp_label = lower (e_label entity), rp_original = e_text entity,
                   rp_replacement = rep, rp_start = e_start entity, rp_end = e_end entity,
                   rp_score = e_score entity, rp_strategy_used = su\<rparr>]"
      by (auto simp: replace_entity_def Let_def)
    moreover have "cached_detail self' \<lparr>rp_label = lower (e_label entity), rp_original = e_text entity,
                   rp_replacement = rep, rp_start = e_start entity, rp_end = e_end entity,
                   rp_score = e_score entity, rp_strategy_used = su\<rparr>"
      using c unfolding cached_detail_def s1 by simp
    ultimately show ?thesis using old by simp
  qed
qed

lemma fold_replace_entity_cached:
  assumes "fold (replace_entity lower upper True strategies) es (self, r, t, ds, m) = (self', r', t', ds', m')"
    and "\<forall>d \<in> set ds. cached_detail self d"
  shows "\<forall>d \<in> set ds'. cached_detail self' d"
  using assms
proof (induction es arbitrary: self r t ds m)
  case Nil
  then show ?case by simp
next
  case (Cons e es)
  obtain s1 r1 t1 ds1 m1
    where step: "replace_entity lower upper True strategies e (self, r, t, ds, m) = (s1, r1, t1, ds1, m1)"
    by (metis prod.exhaust)
  from replace_entity_cached [OF step Cons.prems(2)]
  have inv1: "\<forall>d \<in> set ds1. cached_detail s1 d" .
  from Cons.prems(1) step
  have "fold (replace_entity lower upper True strategies) es (s1, r1, t1, ds1, m1) = (self', r', t', ds', m')"
    by simp
  from Cons.IH [OF this inv1] show ?case .
qed

lemma replace_entity_cases:
  assumes g: "replacer_get_replacement lower upper self entity consistency
                (map_of strategies (lower (e_label entity))) r = ((rep, su), s1, r1)"
  shows "replace_entity lower upper consistency strategies entity (self, r, t, ds, m) =
     (if rep \<noteq> [] \<and> rep \<noteq> e_text entity
      then (s1, r1, py_prefix t (e_start entity) @ rep @ py_suffix t (e_end entity),
            ds @ [\<lparr>rp_label = lower (e_label entity), rp_original = e_text entity,
                   rp_replacement = rep, rp_start = e_start entity, rp_end = e_end entity,
                   rp_score = e_score entity, rp_strategy_used = su\<rparr>],
            dict_set m (e_text entity) rep)
      else (s1, r1, t, ds, m))"
  using g by (simp add: replace_entity_def Let_def)


lemma replace_entity_details:
  assumes step: "replace_entity lower upper consistency strategies entity (self, r, t, ds, m)
                   = (self', r', t', ds', m')"
  shows "ds' = ds \<or> (\<exists>d. replacement_of lower entity d \<and> ds' = ds @ [d])"
proof -
  obtain rep su s1 r1
    where g: "replacer_get_replacement lower upper self entity consistency
                (map_of strategies (lower (e_label entity))) r = ((rep, su), s1, r1)"
    by (metis prod.exhaust)
  show ?thesis
  proof (cases "rep \<noteq> [] \<and> rep \<noteq> e_text entity")
    case False
    with step show ?thesis unfolding replace_entity_cases [OF g] by auto
  next
    case True
    define d where "d = \<lparr>rp_label = lower (e_label entity), rp_original = e_text entity,
                   rp_replacement = rep, rp_start = e_start entity, rp_end = e_end entity,
                   rp_score = e_score entity, rp_strategy_used = su\<rparr>"
    from True step have "ds' = ds @ [d]" unfolding replace_entity_cases [OF g] d_def by auto
    moreover have "replacement_of lower entity d" using True by (simp add: replacement_of_def d_def)
    ultimately show ?thesis by blast
  qed
qed

lemma fold_replace_entity_details:
  assumes "fold (replace_entity lower upper consistency strategies) es (self, r, t, ds, m)
             = (self', r', t', ds', m')"
    and "\<forall>d \<in> set ds. \<exists>e \<in> E. replacement_of lower e d" and "set es \<subseteq> E"
  shows "(\<forall>d \<in> set ds'. \<exists>e \<in> E. replacement_of lower e d) \<and> length ds' \<le> length ds + length es"
  using assms
proof (induction es arbitrary: self r t ds m)
  case Nil
  then show ?case by simp
next
  case (Cons e es)
  obtain s1 r1 t1 ds1 m1
    where step: "replace_entity lower upper consistency strategies e (self, r, t, ds, m)
                   = (s1, r1, t1, ds1, m1)"
    by (metis prod.exhaust)
  from replace_entity_details [OF step]
  have alt: "ds1 = ds \<or> (\<exists>d. replacement_of lower e d \<and> ds1 = ds @ [d])" .
  have "e \<in> E" using Cons.prems(3) by simp
  with alt Cons.prems(2) have inv1: "\<forall>d \<in> set ds1. \<exists>e \<in> E. replacement_of lower e d" by auto
  from alt have len1: "length ds1 \<le> length ds + 1" by auto
  from Cons.prems(1) step
  have "fold (replace_entity lower upper consistency strategies) es (s1, r1, t1, ds1, m1)
          = (self', r', t', ds', m')" by simp
  from Cons.IH [OF this inv1] Cons.prems(3)
  have "(\<forall>d \<in> set ds'. \<exists>e \<in> E. replacement_of lower e d) \<and> length ds' \<le> length ds1 + length es"
    by simp
  with len1 show ?case by simp
qed

lemma replace_details:
  assumes run: "replace lower upper self text entities ensure_consistency_arg custom_strategies r
                  = (result, self', r')"
  shows "(\<forall>d \<in> set (rs_replacements result). \<exists>e \<in> set entities. replacement_of lower e d)
       \<and> rs_replacements_applied result = length (rs_replacements result)
       \<and> rs_replacements_applied result \<le> rs_entities_processed result"
proof (cases "entities = []")
  case True
  with run show ?thesis by (auto simp: replace_def)
next
  case False
  define consistency where "consistency = (case ensure_consistency_arg of
                             Some b \<Rightarrow> b | None \<Rightarrow> ensure_consistency self)"
  define strategies where "strategies = (case custom_strategies of Some d \<Rightarrow> d | None \<Rightarrow> [])"
  obtain s2 r2 t2 ds2 m2
    where f: "fold (replace_entity lower upper consistency strategies) (sorted_reverse e_start entities)
                (self, r, text, [], []) = (s2, r2, t2, ds2, m2)"
    by (metis prod.exhaust)
  have "replace lower upper self text entities ensure_consistency_arg custom_strategies r
          = (\<lparr>rs_anonymized_text = t2, rs_replacements = sort_key rp_start ds2,
               rs_entities_processed = length entities, rs_replacements_applied = length ds2,
               rs_replacement_map = m2\<rparr>, s2, r2)"
    by (simp add: replace_def False Let_def strategies_def [symmetric] consistency_def [symmetric] f)
  with run have res: "result = \<lparr>rs_anonymized_text = t2, rs_replacements = sort_key rp_start ds2,
               rs_entities_processed = length entities, rs_replacements_applied = length ds2,
               rs_replacement_map = m2\<rparr>" by simp
  have sub: "set (sorted_reverse e_start entities) \<subseteq> set entities"
    by (simp add: sorted_reverse_def)
  from fold_replace_entity_details [OF f _ sub]
  have "(\<forall>d \<in> set ds2. \<exists>e \<in> set entities. replacement_of lower e d)
        \<and> length ds2 \<le> length (sorted_reverse e_start entities)" by simp
  then show ?thesis by (simp add: res sorted_reverse_def)
qed

text \<open>
  C6. Replacement consistency: in one call of \<open>replace\<close> with consistency in force (by
  the argument of the call or, without one, by the replacer), two recorded details with
  the same lower-cased label and the same original text carry the same replacement, and
  every recorded detail is that of an entity of the input, with its lower-cased label, its
  text and its span. This holds for every replacer, whatever its cache holds and whatever its strategies and the
  random source return.
\<close>

theorem replace_consistency:
  assumes run: "replace lower upper self text entities ensure_consistency_arg custom_strategies r
                  = (result, self', r')"
    and on: "(case ensure_consistency_arg of Some b \<Rightarrow> b | None \<Rightarrow> ensure_consistency self)"
  shows "(\<forall>d1 \<in> set (rs_replacements result). \<forall>d2 \<in> set (rs_replacements result).
            rp_label d1 = rp_label d2 \<and> rp_original d1 = rp_original d2
            \<longrightarrow> rp_replacement d1 = rp_replacement d2)
       \<and> (\<forall>d \<in> set (rs_replacements result). \<exists>e \<in> set entities. replacement_of lower e d)"
proof -
  have same: "\<forall>d1 \<in> set (rs_replacements result). \<forall>d2 \<in> set (rs_replacements result).
            rp_label d1 = rp_label d2 \<and> rp_original d1 = rp_original d2
            \<longrightarrow> rp_replacement d1 = rp_replacement d2"
  proof (cases "entities = []")
  case True
  with run show ?thesis by (auto simp: replace_def)
next
  case False
  define strategies where "strategies = (case custom_strategies of Some d \<Rightarrow> d | None \<Rightarrow> [])"
  obtain s2 r2 t2 ds2 m2
    where f: "fold (replace_entity lower upper True strategies) (sorted_reverse e_start entities)
                (self, r, text, [], []) = (s2, r2, t2, ds2, m2)"
    by (metis prod.exhaust)
  have "replace lower upper self text entities ensure_consistency_arg custom_strategies r
          = (\<lparr>rs_anonymized_text = t2, rs_replacements = sort_key rp_start ds2,
               rs_entities_processed = length entities, rs_replacements_applied = length ds2,
               rs_replacement_map = m2\<rparr>, s2, r2)"
    using on by (simp add: replace_def False Let_def strategies_def [symmetric] f)
  with run have res: "rs_replacements result = sort_key rp_start ds2" by auto
  from fold_replace_entity_cached [OF f]
  have c: "\<forall>d \<in> set ds2. cached_detail s2 d" by simp
  show ?thesis
  proof (intro ballI impI)
    fix d1 d2
    assume "d1 \<in> set (rs_replacements result)" "d2 \<in> set (rs_replacements result)"
      and eq: "rp_label d1 = rp_label d2 \<and> rp_original d1 = rp_original d2"
    then have "d1 \<in> set ds2" "d2 \<in> set ds2" by (simp_all add: res)
    with c obtain s s' where
      "map_of (replacement_cache s2) (rp_label d1, rp_original d1) = Some (rp_replacement d1, s)"
      "map_of (replacement_cache s2) (rp_label d2, rp_original d2) = Some (rp_replacement d2, s')"
      unfolding cached_detail_def by blast
    with eq show "rp_replacement d1 = rp_replacement d2" by simp
  qed
qed
  have own: "\<forall>d \<in> set (rs_replacements result). \<exists>e \<in> set entities. replacement_of lower e d"
    using replace_details [OF run] by blast
  from same own show ?thesis by (rule conjI)
qed



lemma lower_zzz: "ascii_lower ''zzz'' = ''zzz''"
  by code_simp






lemma sevens_run:
  "rs_replacements (fst (replace ascii_lower ascii_upper plain_replacer ''7 7'' sevens None None [3, 5]))
     = [\<lparr>rp_label = ''zzz'', rp_original = ''7'', rp_replacement = ''3'', rp_start = 0, rp_end = 1,
          rp_score = 0.9, rp_strategy_used = ''default_cached''\<rparr>,
        \<lparr>rp_label = ''zzz'', rp_original = ''7'', rp_replacement = ''3'', rp_start = 2, rp_end = 3,
          rp_score = 0.8, rp_strategy_used = ''default''\<rparr>]"
  by (simp add: replace_def sevens_def sorted_reverse_def replace_entity_def
      replacer_get_replacement_def lower_zzz strategy_mapping_def strategies_get_def
      plain_replacer_def default_strategy_def default_get_replacement_def replacement_patterns_def
      generate_generic_replacement_def str_isdigit_def isdigit_def draw_def choice_def digits_def
      Let_def)

theorem replace_consistency_witness:
  "ensure_consistency plain_replacer
   \<and> rp_replacement (rs_replacements
        (fst (replace ascii_lower ascii_upper plain_replacer ''7 7'' sevens None None [3, 5])) ! 0) = ''3''
   \<and> rp_replacement (rs_replacements
        (fst (replace ascii_lower ascii_upper plain_replacer ''7 7'' sevens None None [3, 5])) ! 0)
     = rp_replacement (rs_replacements
        (fst (replace ascii_lower ascii_upper plain_replacer ''7 7'' sevens None None [3, 5])) ! 1)"
proof -
  define run where "run = replace ascii_lower ascii_upper plain_replacer ''7 7'' sevens None None [3, 5]"
  define ds where "ds = rs_replacements (fst run)"
  have on: "ensure_consistency plain_replacer" by (simp add: plain_replacer_def)
  then have on': "(case None of Some b \<Rightarrow> b | None \<Rightarrow> ensure_consistency plain_replacer)" by simp
  have r: "replace ascii_lower ascii_upper plain_replacer ''7 7'' sevens None None [3, 5]
             = (fst run, fst (snd run), snd (snd run))" by (simp add: run_def)
  have ev: "ds = [\<lparr>rp_label = ''zzz'', rp_original = ''7'', rp_replacement = ''3'', rp_start = 0, rp_end = 1,
          rp_score = 0.9, rp_strategy_used = ''default_cached''\<rparr>,
        \<lparr>rp_label = ''zzz'', rp_original = ''7'', rp_replacement = ''3'', rp_start = 2, rp_end = 3,
          rp_score = 0.8, rp_strategy_used = ''default''\<rparr>]"
    unfolding ds_def run_def by (rule sevens_run)
  have m: "ds ! 0 \<in> set ds" "ds ! 1 \<in> set ds" by (simp_all add: ev)
  have k: "rp_label (ds ! 0) = rp_label (ds ! 1) \<and> rp_original (ds ! 0) = rp_original (ds ! 1)"
    by (simp add: ev)
  from replace_consistency [OF r on', THEN conjunct1] m k
  have c: "rp_replacement (ds ! 0) = rp_replacement (ds ! 1)" unfolding ds_def by blast
  have v: "rp_replacement (ds ! 0) = ''3''" by (simp add: ev)
  from on v c show ?thesis unfolding ds_def run_def by blast
qed

end
